theory Spec2Isabelle
  imports Main "HOL-Library.Sublist" "HOL-Library.Multiset" "HOL-Library.AList"
begin

section \<open>JavaScript strings\<close>

text \<open>
  A JavaScript string is a sequence of code units. It is modelled as a \<open>string\<close>
  (a \<open>char list\<close>), so the model covers the strings whose code units are below 256
  (the Latin-1 range); all string operations of the program work code unit by code unit.
\<close>

text \<open>\<open>s.includes(sub)\<close>: \<open>sub\<close> occurs in \<open>s\<close> as a contiguous run.\<close>

fun str_includes :: "string \<Rightarrow> string \<Rightarrow> bool" where
  "str_includes [] sub = (sub = [])"
| "str_includes (c # cs) sub = (prefix sub (c # cs) \<or> str_includes cs sub)"

text \<open>
  The first occurrence of a separator, scanning from the left: the text before it and
  the text after it.
\<close>

fun cutAt :: "string \<Rightarrow> string \<Rightarrow> (string \<times> string) option" where
  "cutAt sep [] = None"
| "cutAt sep (c # cs) =
     (if prefix sep (c # cs) then Some ([], drop (length sep) (c # cs))
      else map_option (\<lambda>(a, b). (c # a, b)) (cutAt sep cs))"

lemma cutAt_shorter:
  "cutAt sep s = Some (a, b) \<Longrightarrow> sep \<noteq> [] \<Longrightarrow> length b < length s"
proof (induction s arbitrary: a)
  case Nil
  then show ?case by simp
next
  case (Cons c cs)
  show ?case
  proof (cases "prefix sep (c # cs)")
    case True
    with Cons.prems show ?thesis by auto
  next
    case False
    with Cons.prems obtain a' where "cutAt sep cs = Some (a', b)"
      by (auto split: prod.splits)
    with Cons.IH Cons.prems(2) show ?thesis by fastforce
  qed
qed

text \<open>
  \<open>s.split(sep)\<close> with a string separator: the separator is searched from the left, each
  match is consumed whole (matches never overlap), and the pieces between the matches are
  returned, empty pieces included. With the empty separator the string is cut into its
  code units.
\<close>

function str_split :: "string \<Rightarrow> string \<Rightarrow> string list" where
  "str_split sep s =
     (if sep = [] then map (\<lambda>c. [c]) s
      else case cutAt sep s of
             None \<Rightarrow> [s]
           | Some (a, b) \<Rightarrow> a # str_split sep b)"
  by pat_completeness auto
termination
  by (relation "measure (\<lambda>(sep, s). length s)") (auto dest: cutAt_shorter)

declare str_split.simps [simp del]

text \<open>\<open>parts.join(sep)\<close>.\<close>

fun str_join :: "string \<Rightarrow> string list \<Rightarrow> string" where
  "str_join sep [] = []"
| "str_join sep [p] = p"
| "str_join sep (p # q # ps) = p @ sep @ str_join sep (q # ps)"

text \<open>
  \<open>s.toLowerCase()\<close> on code units below 256: the letters \<open>A\<close> to \<open>Z\<close> (65 to 90) and the
  Latin-1 capitals (192 to 222, without the multiplication sign 215) move up by 32.
\<close>

definition lowerChar :: "char \<Rightarrow> char" where
  "lowerChar c =
     (let n = (of_char c :: nat)
      in if (65 \<le> n \<and> n \<le> 90) \<or> (192 \<le> n \<and> n \<le> 222 \<and> n \<noteq> 215)
         then char_of (n + 32) else c)"

definition toLowerCase :: "string \<Rightarrow> string" where
  "toLowerCase s = map lowerChar s"

section \<open>JavaScript arrays and sets\<close>

text \<open>
  \<open>Array.prototype.sort\<close> with a comparator. ECMAScript (2019 and later) requires the sort
  to be stable; for a consistent comparator the result is then determined, and it is the
  one insertion sort computes: an element moves in front of the elements the comparator
  puts it before (\<open>cmp x y < 0\<close>), never past one it compares equal to.
\<close>

fun sortInsert :: "('a \<Rightarrow> 'a \<Rightarrow> int) \<Rightarrow> 'a \<Rightarrow> 'a list \<Rightarrow> 'a list" where
  "sortInsert cmp x [] = [x]"
| "sortInsert cmp x (y # ys) =
     (if cmp x y \<le> 0 then x # y # ys else y # sortInsert cmp x ys)"

definition arraySort :: "('a \<Rightarrow> 'a \<Rightarrow> int) \<Rightarrow> 'a list \<Rightarrow> 'a list" where
  "arraySort cmp xs = foldr (sortInsert cmp) xs []"

text \<open>
  A JavaScript \<open>Set\<close> keeps its elements in insertion order, and \<open>add\<close> leaves it alone
  when the element is already there.
\<close>

definition setAdd :: "'a \<Rightarrow> 'a list \<Rightarrow> 'a list" where
  "setAdd x s = (if x \<in> set s then s else s @ [x])"

section \<open>Text normalizer\<close>

text \<open>
  The white space of the regular expression class \<open>\s\<close> and of \<open>trim\<close>, among the code
  units below 256: tab, line feed, vertical tab, form feed, carriage return, space and
  the no-break space. The dot of a regular expression matches everything but the line
  terminators.
\<close>

definition isSpace :: "char \<Rightarrow> bool" where
  "isSpace c \<longleftrightarrow>
     c \<in> set [CHR 0x09, CHR 0x0A, CHR 0x0B, CHR 0x0C, CHR 0x0D, CHR 0x20, CHR 0xA0]"

definition isLineTerminator :: "char \<Rightarrow> bool" where
  "isLineTerminator c \<longleftrightarrow> c \<in> set [CHR 0x0A, CHR 0x0D]"

text \<open>
  \<open>text.replace(/<.*?>/g, '')\<close>: from a \<open><\<close> the lazy \<open>.*?\<close> runs to the nearest
  \<open>>\<close> on the same line; \<open>tagEnd\<close> returns what follows that \<open>>\<close>. A \<open><\<close> with no
  such \<open>>\<close> stays.
\<close>

fun tagEnd :: "string \<Rightarrow> string option" where
  "tagEnd [] = None"
| "tagEnd (c # cs) =
     (if c = CHR ''>'' then Some cs
      else if isLineTerminator c then None
      else tagEnd cs)"

lemma tagEnd_shorter: "tagEnd cs = Some r \<Longrightarrow> length r < length cs"
  by (induction cs) (auto split: if_splits)

function stripTags :: "string \<Rightarrow> string" where
  "stripTags [] = []"
| "stripTags (c # cs) =
     (if c = CHR ''<'' then
        (case tagEnd cs of Some r \<Rightarrow> stripTags r | None \<Rightarrow> c # stripTags cs)
      else c # stripTags cs)"
  by pat_completeness auto
termination
  by (relation "measure length") (auto dest: tagEnd_shorter)

text \<open>
  \<open>text.replace(/http\S+/g, '')\<close>: \<open>http\<close> followed by at least one code unit that is not
  white space; the greedy \<open>\S+\<close> takes the whole run up to the next white space.
\<close>

function removeUrls :: "string \<Rightarrow> string" where
  "removeUrls [] = []"
| "removeUrls (c # cs) =
     (if prefix ''http'' (c # cs) \<and> takeWhile (\<lambda>x. \<not> isSpace x) (drop 4 (c # cs)) \<noteq> []
      then removeUrls (dropWhile (\<lambda>x. \<not> isSpace x) (drop 4 (c # cs)))
      else c # removeUrls cs)"
  by pat_completeness auto
termination
proof (relation "measure length")
  fix c :: char and cs :: string
  have "length (dropWhile (\<lambda>x. \<not> isSpace x) (drop 4 (c # cs))) \<le> length (drop 4 (c # cs))"
    by (rule length_dropWhile_le)
  then show "(dropWhile (\<lambda>x. \<not> isSpace x) (drop 4 (c # cs)), c # cs) \<in> measure length"
    by simp
qed simp_all

text \<open>\<open>text.replace(/\s+/g, ' ')\<close>: every maximal run of white space becomes one space.\<close>

function collapseSpaces :: "string \<Rightarrow> string" where
  "collapseSpaces [] = []"
| "collapseSpaces (c # cs) =
     (if isSpace c then CHR '' '' # collapseSpaces (dropWhile isSpace cs)
      else c # collapseSpaces cs)"
  by pat_completeness auto
termination
proof (relation "measure length")
  fix c :: char and cs :: string
  have "length (dropWhile isSpace cs) \<le> length cs"
    by (rule length_dropWhile_le)
  then show "(dropWhile isSpace cs, c # cs) \<in> measure length"
    by simp
qed simp_all

definition trim :: "string \<Rightarrow> string" where
  "trim s = rev (dropWhile isSpace (rev (dropWhile isSpace s)))"

definition cleanText :: "string \<Rightarrow> string" where
  "cleanText text = toLowerCase (trim (collapseSpaces (removeUrls (stripTags text))))"

text \<open>
  \<open>wordFreq\<close> is a plain object created by \<open>{}\<close>: its own properties in creation order,
  on top of what it inherits from \<open>Object.prototype\<close>. A slot holds a count, or a string
  once \<open>+ 1\<close> has been applied to an inherited function or object.
\<close>

datatype freq = Count nat | Text string

text \<open>
  The libraries and the host are parameters of the model:

  \<^item> \<open>tokenize\<close> and \<open>stem\<close>: the word tokenizer and the Porter stemmer of \<open>natural\<close>;

  \<^item> \<open>removeStopwords\<close>: the binding of line 6,
    \<open>const { remove: removeStopwords } = require('stopword')\<close>, that is, what the module
    \<open>stopword\<close> exports under the name \<open>remove\<close>. A module without such an export leaves
    the binding \<open>undefined\<close> (\<open>None\<close>), and the call \<open>removeStopwords(tokens)\<close> then throws
    a \<open>TypeError\<close>. The package \<open>stopword\<close> exports \<open>removeStopwords\<close> and its word lists
    and nothing named \<open>remove\<close>, so for the program as published the binding is \<open>None\<close>;

  \<^item> \<open>Date_parse\<close>: the date parser behind \<open>new Date(string)\<close>, which yields a time
    value in milliseconds or, for a string it cannot read, the invalid date (\<open>None\<close>);

  \<^item> \<open>engineOrder\<close>: the order in which \<open>Array.prototype.sort\<close> of the engine leaves
    the array of word pairs when the comparator is not consistent (ECMAScript calls the
    order implementation-defined then);

  \<^item> \<open>offsetAtUTC\<close> and \<open>offsetAtLocal\<close>: the time zone of the process, as the offset of
    local time from UTC in milliseconds at a time value given in UTC and at one given in
    local time (\<open>LocalTZA(t, true)\<close> and \<open>LocalTZA(t, false)\<close> of ECMAScript).
\<close>

record platform =
  tokenize :: "string \<Rightarrow> string list"
  removeStopwords :: "(string list \<Rightarrow> string list) option"
  stem :: "string \<Rightarrow> string"
  Date_parse :: "string \<Rightarrow> int option"
  engineOrder :: "(string \<times> freq) list \<Rightarrow> (string \<times> freq) list"
  offsetAtUTC :: "int \<Rightarrow> int"
  offsetAtLocal :: "int \<Rightarrow> int"

definition additionalStops :: "string list" where
  "additionalStops = [''said'', ''also'', ''would'', ''according'', ''reported'', ''news'']"

text \<open>The test \<open>/^[a-z0-9]+$/\<close>.\<close>

definition alnumWord :: "string \<Rightarrow> bool" where
  "alnumWord word \<longleftrightarrow>
     word \<noteq> [] \<and> list_all (\<lambda>c. c \<in> set ''abcdefghijklmnopqrstuvwxyz0123456789'') word"

text \<open>
  \<open>filteredTokens\<close>, for a binding \<open>removeStopwords\<close> that is a function (\<open>remove\<close>).
\<close>

definition filteredTokens :: "(string list \<Rightarrow> string list) \<Rightarrow> string list \<Rightarrow> string list" where
  "filteredTokens remove tokens =
     filter (\<lambda>word. word \<notin> set additionalStops \<and> alnumWord word \<and> length word > 2)
       (remove tokens)"

text \<open>
  The string that \<open>wordFreq[word] + 1\<close> starts with when \<open>word\<close> names a property inherited
  from \<open>Object.prototype\<close>.
\<close>

definition inheritedText :: "string \<Rightarrow> string option" where
  "inheritedText word =
     (if word = ''constructor'' then Some ''function Object() { [native code] }''
      else if word = ''__proto__'' then Some ''[object Object]''
      else if word \<in> set [''toString'', ''toLocaleString'', ''valueOf'', ''hasOwnProperty'',
                ''isPrototypeOf'', ''propertyIsEnumerable'', ''__defineGetter__'',
                ''__defineSetter__'', ''__lookupGetter__'', ''__lookupSetter__'']
      then Some (''function '' @ word @ ''() { [native code] }'')
      else None)"

text \<open>
  \<open>wordFreq[word] = (wordFreq[word] || 0) + 1\<close>. Stored values are never falsy (a count
  is at least 1, a text is not empty). An assignment to \<open>__proto__\<close> of a value that is no
  object goes to the inherited setter, which ignores it.
\<close>

definition bump :: "(string \<times> freq) list \<Rightarrow> string \<Rightarrow> (string \<times> freq) list" where
  "bump wordFreq word =
     (case map_of wordFreq word of
        Some (Count n) \<Rightarrow> AList.update word (Count (n + 1)) wordFreq
      | Some (Text s) \<Rightarrow> AList.update word (Text (s @ ''1'')) wordFreq
      | None \<Rightarrow>
          (case inheritedText word of
             None \<Rightarrow> wordFreq @ [(word, Count 1)]
           | Some s \<Rightarrow>
               if word = ''__proto__'' then wordFreq
               else wordFreq @ [(word, Text (s @ ''1''))]))"

definition countWords :: "string list \<Rightarrow> (string \<times> freq) list" where
  "countWords stemmed = foldl bump [] stemmed"

text \<open>
  \<open>Object.entries\<close> lists the own properties whose names are array indices first, in
  ascending numeric order, and then the other names in creation order. An array index is
  the canonical decimal form of an integer from 0 to \<open>2^32 - 2\<close>.
\<close>

definition digitValue :: "char \<Rightarrow> int" where
  "digitValue c = of_char c - 48"

definition parseNat :: "string \<Rightarrow> int" where
  "parseNat s = foldl (\<lambda>n c. 10 * n + digitValue c) 0 s"

definition isArrayIndex :: "string \<Rightarrow> bool" where
  "isArrayIndex s \<longleftrightarrow>
     s \<noteq> [] \<and> list_all (\<lambda>c. c \<in> set ''0123456789'') s \<and>
     (s = ''0'' \<or> hd s \<noteq> CHR ''0'') \<and> parseNat s < 4294967295"

definition Object_entries :: "(string \<times> 'v) list \<Rightarrow> (string \<times> 'v) list" where
  "Object_entries obj =
     sort_key (\<lambda>p. parseNat (fst p)) (filter (\<lambda>p. isArrayIndex (fst p)) obj) @
     filter (\<lambda>p. \<not> isArrayIndex (fst p)) obj"

text \<open>
  The comparator \<open>(a, b) => b[1] - a[1]\<close>, as the sort reads it: with a text in either
  slot the difference is \<open>NaN\<close>, which the sort takes as 0. The comparator is then not
  consistent, and the order in which the sort leaves the pairs is the engine's. So
  \<open>wordPairs.sort(...)\<close> is the stable sort when every slot holds a count, and
  \<open>engineOrder\<close> otherwise.
\<close>

definition isCount :: "freq \<Rightarrow> bool" where
  "isCount f = (case f of Count n \<Rightarrow> True | Text s \<Rightarrow> False)"

definition countOf :: "freq \<Rightarrow> nat" where
  "countOf f = (case f of Count n \<Rightarrow> n | Text s \<Rightarrow> 0)"

definition byFrequency :: "string \<times> freq \<Rightarrow> string \<times> freq \<Rightarrow> int" where
  "byFrequency a b =
     (case (snd b, snd a) of
        (Count m, Count n) \<Rightarrow> int m - int n
      | _ \<Rightarrow> 0)"

definition sortPairs :: "platform \<Rightarrow> (string \<times> freq) list \<Rightarrow> (string \<times> freq) list" where
  "sortPairs P wordPairs =
     (if list_all (\<lambda>p. isCount (snd p)) wordPairs then arraySort byFrequency wordPairs
      else engineOrder P wordPairs)"

text \<open>\<open>xs.slice(0, stop)\<close>: a negative \<open>stop\<close> counts from the end of the array.\<close>

definition slice0 :: "'a list \<Rightarrow> int \<Rightarrow> 'a list" where
  "slice0 xs stop =
     (if stop < 0 then take (nat (int (length xs) + stop)) xs else take (nat stop) xs)"

text \<open>
  \<open>extractKeywords\<close>; an absent text is \<open>None\<close>, and \<open>!text\<close> holds for it and for the empty
  string. The function returns the pairs (\<open>Inr\<close>) or throws (\<open>Inl\<close> with the message of the
  error): after the cleaning and the tokenizer, line 73 calls the binding
  \<open>removeStopwords\<close>, and calling \<open>undefined\<close> is a \<open>TypeError\<close>.
\<close>

definition extractKeywords ::
  "platform \<Rightarrow> string option \<Rightarrow> int \<Rightarrow> string + (string \<times> freq) list" where
  "extractKeywords P text topN =
     (case text of
        None \<Rightarrow> Inr []
      | Some t \<Rightarrow>
          if t = [] then Inr []
          else
            (let tokens = tokenize P (cleanText t)
             in case removeStopwords P of
                  None \<Rightarrow> Inl ''removeStopwords is not a function''
                | Some remove \<Rightarrow>
                    (let stemmed = map (stem P) (filteredTokens remove tokens);
                         wordFreq = countWords stemmed;
                         wordPairs = sortPairs P (Object_entries wordFreq)
                     in Inr (slice0 wordPairs topN))))"

text \<open>
  For the statements about the result: the stems in the order of their first occurrence,
  and the order in which \<open>Object.entries\<close> lists them, array indices first and ascending.
\<close>

definition firstSeen :: "string list \<Rightarrow> string list" where
  "firstSeen ws = foldl (\<lambda>seen w. setAdd w seen) [] ws"

definition entryOrder :: "string list \<Rightarrow> string list" where
  "entryOrder ws =
     sort_key parseNat (filter isArrayIndex (firstSeen ws)) @
     filter (\<lambda>k. \<not> isArrayIndex k) (firstSeen ws)"

text \<open>
  The platform of the worked examples is the program as published, run in the time zone
  UTC: the module \<open>stopword\<close> exports nothing named \<open>remove\<close>, so the binding
  \<open>removeStopwords\<close> is \<open>undefined\<close>. The tokenizer cuts at every code unit that is no
  letter, digit or underscore, as the word tokenizer of \<open>natural\<close> does on the texts of
  the examples; the stemmer and the engine's order for an inconsistent comparator are
  never reached. The date parser knows three dates in the form of RFC 1123 and takes
  every other string as unparseable.
\<close>

definition isWordChar :: "char \<Rightarrow> bool" where
  "isWordChar c \<longleftrightarrow>
     c \<in> set ''abcdefghijklmnopqrstuvwxyzABCDEFGHIJKLMNOPQRSTUVWXYZ0123456789_''"

function wordTokens :: "string \<Rightarrow> string list" where
  "wordTokens s =
     (case dropWhile (\<lambda>c. \<not> isWordChar c) s of
        [] \<Rightarrow> []
      | c # cs \<Rightarrow> takeWhile isWordChar (c # cs) # wordTokens (dropWhile isWordChar (c # cs)))"
  by pat_completeness auto
termination
proof (relation "measure length")
  fix s :: string and c :: char and cs :: string
  assume d: "dropWhile (\<lambda>c. \<not> isWordChar c) s = c # cs"
  then have w: "isWordChar c" using hd_dropWhile [of "\<lambda>c. \<not> isWordChar c" s] by auto
  have "length (dropWhile isWordChar cs) \<le> length cs" by (rule length_dropWhile_le)
  moreover have "length (c # cs) \<le> length s"
    using d length_dropWhile_le [of "\<lambda>c. \<not> isWordChar c" s] by simp
  ultimately show "(dropWhile isWordChar (c # cs), s) \<in> measure length"
    using w by simp
qed simp

declare wordTokens.simps [simp del]

definition samplePlatform :: platform where
  "samplePlatform =
     \<lparr>tokenize = wordTokens,
      removeStopwords = None,
      stem = (\<lambda>w. w),
      Date_parse = (\<lambda>s. if s = ''Mon, 08 Jan 2024 00:00:00 GMT'' then Some 1704672000000
                         else if s = ''Sun, 31 Dec 2023 00:00:00 GMT'' then Some 1703980800000
                         else if s = ''Fri, 01 Jan 2100 00:00:00 GMT'' then Some 4102444800000
                         else None),
      engineOrder = (\<lambda>wordPairs. wordPairs),
      offsetAtUTC = (\<lambda>t. 0),
      offsetAtLocal = (\<lambda>t. 0)\<rparr>"

section \<open>Title splitter\<close>

text \<open>
  \<open>extractSourceFromTitle\<close>: a Google News title has the form \<open>Title - Source\<close>.
  \<open>parts.pop()\<close> removes and returns the last piece; the remaining pieces are joined again.
\<close>

definition extractSourceFromTitle :: "string \<Rightarrow> string \<times> string" where
  "extractSourceFromTitle title =
     (if str_includes title '' - '' then
        (let parts = str_split '' - '' title;
             source = last parts;
             mainTitle = str_join '' - '' (butlast parts)
         in (mainTitle, source))
      else (title, ''Unknown''))"

text \<open>
  The splitter as the specification words it: the last occurrence of the separator
  delimits the source; everything before it is the title, everything after it the source.
\<close>

fun lastCut :: "string \<Rightarrow> string \<Rightarrow> (string \<times> string) option" where
  "lastCut sep [] = None"
| "lastCut sep (c # cs) =
     (case lastCut sep cs of
        Some (a, b) \<Rightarrow> Some (c # a, b)
      | None \<Rightarrow> if prefix sep (c # cs) then Some ([], drop (length sep) (c # cs)) else None)"

definition splitAtLastSeparator :: "string \<Rightarrow> string \<times> string" where
  "splitAtLastSeparator raw =
     (case lastCut '' - '' raw of Some (a, b) \<Rightarrow> (a, b) | None \<Rightarrow> (raw, ''Unknown''))"

section \<open>Numbers and dates\<close>

text \<open>
  An integer in decimal digits, as a template literal prints it; \<open>showNat\<close> is for the
  integers from 0 on.
\<close>

definition digitChar :: "int \<Rightarrow> char" where
  "digitChar n = ''0123456789'' ! nat n"

function showNat :: "int \<Rightarrow> string" where
  "showNat n = (if n < 10 then [digitChar n] else showNat (n div 10) @ [digitChar (n mod 10)])"
  by pat_completeness auto
termination
  by (relation "measure nat") auto

declare showNat.simps [simp del]

definition showInt :: "int \<Rightarrow> string" where
  "showInt i = (if i < 0 then ''-'' @ showNat (- i) else showNat i)"

definition padStart :: "nat \<Rightarrow> string \<Rightarrow> string" where
  "padStart n s = replicate (n - length s) (CHR ''0'') @ s"

text \<open>
  A valid \<open>Date\<close> is its time value, the milliseconds since 1970-01-01T00:00:00Z, an
  \<open>int\<close>; a \<open>Date\<close> that may be invalid is an \<open>int option\<close>, with \<open>None\<close> for the invalid
  date (time value \<open>NaN\<close>).

  The calendar is that of ECMAScript, the proleptic Gregorian calendar on day numbers
  (days since 1970-01-01): \<open>dayFromYear y\<close> is the day number of the first day of year
  \<open>y\<close>, the year of a day is the last year that starts on or before it, and month and
  day of the month come from the lengths of the months.
\<close>

definition dayFromYear :: "int \<Rightarrow> int" where
  "dayFromYear y =
     365 * (y - 1970) + (y - 1969) div 4 - (y - 1901) div 100 + (y - 1601) div 400"

definition inLeapYear :: "int \<Rightarrow> bool" where
  "inLeapYear y \<longleftrightarrow> y mod 4 = 0 \<and> (y mod 100 \<noteq> 0 \<or> y mod 400 = 0)"

lemma div_succ:
  fixes x n :: int
  assumes n: "0 < n"
  shows "(x + 1) div n = x div n + (if (x + 1) mod n = 0 then 1 else 0)"
proof -
  define q where "q = x div n"
  define r where "r = x mod n"
  have x: "x = n * q + r" and r: "0 \<le> r" "r < n"
    using n by (simp_all add: q_def r_def)
  show ?thesis
  proof (cases "r + 1 = n")
    case True
    then have e: "x + 1 = n * (q + 1) + 0" using x by (simp add: algebra_simps)
    have "(x + 1) div n = q + 1" using n by (intro int_div_pos_eq [OF e]) simp_all
    moreover have "(x + 1) mod n = 0" using n by (intro int_mod_pos_eq [OF e]) simp_all
    ultimately show ?thesis by (simp add: q_def)
  next
    case False
    then have lt: "r + 1 < n" using r by simp
    have e: "x + 1 = n * q + (r + 1)" using x by simp
    have "(x + 1) div n = q" using r lt by (intro int_div_pos_eq [OF e]) simp_all
    moreover have "(x + 1) mod n = r + 1" using r lt by (intro int_mod_pos_eq [OF e]) simp_all
    ultimately show ?thesis using r by (simp add: q_def)
  qed
qed

lemma div_pred:
  fixes y n j :: int
  assumes n: "0 < n"
  shows "(y - n * j) div n = (y - n * j - 1) div n + (if y mod n = 0 then 1 else 0)"
proof -
  have "(y - n * j - 1 + 1) div n
      = (y - n * j - 1) div n + (if (y - n * j - 1 + 1) mod n = 0 then 1 else 0)"
    using n by (rule div_succ)
  moreover have "y - n * j - 1 + 1 = y - n * j" by simp
  moreover have "(y - n * j) mod n = y mod n"
    using mod_mult_self2 [of y n "- j"] by simp
  ultimately show ?thesis by (simp only:)
qed

lemma dayFromYear_Suc:
  "dayFromYear (y + 1) = dayFromYear y + (if inLeapYear y then 366 else 365)"
proof -
  define a where "a = (y - 1969) div 4"
  define b where "b = (y - 1901) div 100"
  define c where "c = (y - 1601) div 400"
  define a' where "a' = (y - 1968) div 4"
  define b' where "b' = (y - 1900) div 100"
  define c' where "c' = (y - 1600) div 400"
  have d4: "a' = a + (if y mod 4 = 0 then 1 else 0)"
    unfolding a_def a'_def using div_pred [of 4 y 492] by simp
  have d100: "b' = b + (if y mod 100 = 0 then 1 else 0)"
    unfolding b_def b'_def using div_pred [of 100 y 19] by simp
  have d400: "c' = c + (if y mod 400 = 0 then 1 else 0)"
    unfolding c_def c'_def using div_pred [of 400 y 4] by simp
  have i1: "y mod 100 = 0" if "y mod 400 = 0"
    using that mod_mod_cancel [of 100 400 y] by simp
  have i2: "y mod 4 = 0" if "y mod 100 = 0"
    using that mod_mod_cancel [of 4 100 y] by simp
  have "y + 1 - 1970 = y - 1969" "y + 1 - 1969 = y - 1968" "y + 1 - 1901 = y - 1900"
    "y + 1 - 1601 = y - 1600"
    by simp_all
  then have l: "dayFromYear (y + 1) = 365 * (y - 1969) + a' - b' + c'"
    unfolding dayFromYear_def a'_def b'_def c'_def by (simp only:)
  have r: "dayFromYear y = 365 * (y - 1970) + a - b + c"
    unfolding dayFromYear_def a_def b_def c_def by (rule refl)
  consider (n4) "y mod 4 \<noteq> 0" | (n100) "y mod 4 = 0" "y mod 100 \<noteq> 0"
    | (n400) "y mod 100 = 0" "y mod 400 \<noteq> 0" | (y400) "y mod 400 = 0"
    by argo
  then show ?thesis
  proof cases
    case n4
    with i1 i2 have "y mod 100 \<noteq> 0" "y mod 400 \<noteq> 0" by metis+
    with n4 have "a' = a" "b' = b" "c' = c" "\<not> inLeapYear y"
      using d4 d100 d400 by (simp_all add: inLeapYear_def)
    with l r show ?thesis by simp
  next
    case n100
    with i1 have "y mod 400 \<noteq> 0" by metis
    with n100 have "a' = a + 1" "b' = b" "c' = c" "inLeapYear y"
      using d4 d100 d400 by (simp_all add: inLeapYear_def)
    with l r show ?thesis by simp
  next
    case n400
    with i2 have "y mod 4 = 0" by metis
    with n400 have "a' = a + 1" "b' = b + 1" "c' = c" "\<not> inLeapYear y"
      using d4 d100 d400 by (simp_all add: inLeapYear_def)
    with l r show ?thesis by simp
  next
    case y400
    with i1 i2 have "y mod 100 = 0" "y mod 4 = 0" by metis+
    with y400 have "a' = a + 1" "b' = b + 1" "c' = c + 1" "inLeapYear y"
      using d4 d100 d400 by (simp_all add: inLeapYear_def)
    with l r show ?thesis by simp
  qed
qed

lemma dayFromYear_less: "dayFromYear y < dayFromYear (y + 1)"
  by (simp add: dayFromYear_Suc)

text \<open>The search for the year runs upwards from a year that starts on or before the day.\<close>

function yearFrom :: "int \<Rightarrow> int \<Rightarrow> int" where
  "yearFrom day y = (if dayFromYear (y + 1) \<le> day then yearFrom day (y + 1) else y)"
  by pat_completeness auto
termination
proof (relation "measure (\<lambda>(day, y). nat (day - dayFromYear (y + 1) + 1))")
  fix day y :: int
  assume "dayFromYear (y + 1) \<le> day"
  moreover have "dayFromYear (y + 1) < dayFromYear (y + 1 + 1)"
    by (rule dayFromYear_less)
  ultimately have "nat (day - dayFromYear (y + 1 + 1) + 1) < nat (day - dayFromYear (y + 1) + 1)"
    by linarith
  then show "((day, y + 1), (day, y))
      \<in> measure (\<lambda>(day, y). nat (day - dayFromYear (y + 1) + 1))"
    by (simp only: in_measure prod.case)
qed (rule wf_measure)

declare yearFrom.simps [simp del]

definition yearFromDay :: "int \<Rightarrow> int" where
  "yearFromDay day = yearFrom day (1970 + (if 0 \<le> day then day div 366 else day div 365))"

definition monthLengths :: "bool \<Rightarrow> int list" where
  "monthLengths leap = [31, if leap then 29 else 28, 31, 30, 31, 30, 31, 31, 30, 31, 30, 31]"

fun monthDay :: "int \<Rightarrow> int \<Rightarrow> int list \<Rightarrow> int \<times> int" where
  "monthDay m dayInYear [] = (m, dayInYear + 1)"
| "monthDay m dayInYear (l # ls) =
     (if dayInYear < l then (m, dayInYear + 1) else monthDay (m + 1) (dayInYear - l) ls)"

definition civilFromDays :: "int \<Rightarrow> int \<times> int \<times> int" where
  "civilFromDays day =
     (let y = yearFromDay day
      in case monthDay 1 (day - dayFromYear y) (monthLengths (inLeapYear y)) of
           (m, d) \<Rightarrow> (y, m, d))"

definition pad2 :: "int \<Rightarrow> string" where
  "pad2 n = padStart 2 (showNat n)"

text \<open>
  \<open>date.toISOString()\<close> of a valid date: \<open>YYYY-MM-DDTHH:mm:ss.sssZ\<close>, the year with six
  digits and a sign outside 0 to 9999.
\<close>

definition yearText :: "int \<Rightarrow> string" where
  "yearText y =
     (if 0 \<le> y \<and> y \<le> 9999 then padStart 4 (showNat y)
      else (if y < 0 then ''-'' else ''+'') @ padStart 6 (showNat \<bar>y\<bar>))"

definition clockText :: "int \<Rightarrow> string" where
  "clockText ms =
     pad2 (ms div 3600000) @ '':'' @ pad2 (ms div 60000 mod 60) @ '':'' @
     pad2 (ms div 1000 mod 60) @ ''.'' @ padStart 3 (showNat (ms mod 1000))"

definition toISOString :: "int \<Rightarrow> string" where
  "toISOString t =
     (case civilFromDays (t div 86400000) of
        (y, m, d) \<Rightarrow>
          yearText y @ ''-'' @ pad2 m @ ''-'' @ pad2 d @ ''T'' @
          clockText (t mod 86400000) @ ''Z'')"

text \<open>
  The wall clock: \<open>clk k\<close> is the time value that the \<open>k\<close>-th reading of the clock
  (\<open>new Date()\<close>, \<open>Date.now()\<close>) returns. A function that reads the clock takes the number
  of readings made so far and returns the number after it.
\<close>

type_synonym clock = "nat \<Rightarrow> int"

text \<open>
  Local time. \<open>d.setDate(d.getDate() - 7)\<close> works on the local calendar: it takes the
  local time of the time value, moves it back seven calendar days with the time within
  the day kept, and converts the result back to UTC. In a zone whose offset does not
  change this subtracts 7 times 86400000 ms; across a change of the offset (daylight
  saving time) it subtracts an hour more or less.
\<close>

definition localTime :: "platform \<Rightarrow> int \<Rightarrow> int" where
  "localTime P t = t + offsetAtUTC P t"

definition utcOfLocal :: "platform \<Rightarrow> int \<Rightarrow> int" where
  "utcOfLocal P t = t - offsetAtLocal P t"

definition sevenDaysBefore :: "platform \<Rightarrow> int \<Rightarrow> int" where
  "sevenDaysBefore P t = utcOfLocal P (localTime P t - 7 * 86400000)"

section \<open>Articles\<close>

text \<open>
  The object pushed for every accepted feed entry. \<open>date_obj\<close> is the time value of the
  \<open>Date\<close> object in milliseconds since the epoch; an article is only built from a valid
  date (see \<open>processEntry\<close>), so the field is an integer. The field \<open>keywords\<close> of the
  source is \<open>keywordsStr\<close> here.
\<close>

record article =
  search_term :: string
  title :: string
  pub_date :: string
  time_ago :: string
  date_obj :: int
  link :: string
  source :: string
  keywordsStr :: string

section \<open>Feed fetcher\<close>

text \<open>
  An item of a parsed feed, as \<open>rss-parser\<close> returns it; a field that is absent is
  \<open>None\<close>. The fields \<open>title\<close>, \<open>pubDate\<close>, \<open>isoDate\<close>, \<open>content\<close>, \<open>contentSnippet\<close> and
  \<open>link\<close> of the source carry the prefix \<open>entry_\<close> here.
\<close>

record entry =
  entry_title :: "string option"
  entry_pubDate :: "string option"
  entry_isoDate :: "string option"
  entry_content :: "string option"
  entry_contentSnippet :: "string option"
  entry_link :: "string option"

text \<open>\<open>a || b\<close> on strings that may be absent: the absent and the empty string are falsy.\<close>

definition truthy :: "string option \<Rightarrow> bool" where
  "truthy a \<longleftrightarrow> (case a of None \<Rightarrow> False | Some s \<Rightarrow> s \<noteq> [])"

definition orElse :: "string option \<Rightarrow> string option \<Rightarrow> string option" where
  "orElse a b = (if truthy a then a else b)"

text \<open>\<open>a || ""\<close>.\<close>

definition orEmpty :: "string option \<Rightarrow> string" where
  "orEmpty a = (case a of None \<Rightarrow> [] | Some s \<Rightarrow> s)"

text \<open>
  \<open>parseDate\<close>: \<open>new Date(dateStr)\<close> does not throw on a string it cannot read, it returns
  the invalid date; so the \<open>catch\<close> branch, which would return the current time, is never
  taken.
\<close>

definition parseDate :: "platform \<Rightarrow> string \<Rightarrow> int option" where
  "parseDate P dateStr = Date_parse P dateStr"

text \<open>
  What the body of the loop over \<open>feed.items\<close> does with one entry: it pushes an article,
  it skips the entry as older than a week (\<open>continue\<close>), or an exception ends it in the
  inner \<open>catch\<close>, which logs the message and goes on with the next entry.
\<close>

datatype entryResult = Pushed article | TooOld | Failed string

definition timeAgoText :: "int \<Rightarrow> string" where
  "timeAgoText timeDiff =
     (let daysAgo = timeDiff div (1000 * 60 * 60 * 24);
          hoursAgo = timeDiff div (1000 * 60 * 60)
      in if daysAgo > 0
         then showInt daysAgo @ '' day'' @ (if daysAgo \<noteq> 1 then ''s'' else []) @ '' ago''
         else showInt hoursAgo @ '' hour'' @ (if hoursAgo \<noteq> 1 then ''s'' else []) @ '' ago'')"

text \<open>
  The comparison \<open>pubDateObj < oneWeekAgo\<close> is false for the invalid date, and
  \<open>toISOString\<close> then throws a \<open>RangeError\<close>. An entry that passes the date filter
  reaches \<open>extractKeywords\<close> after one more clock reading (\<open>currentTime\<close>); its text
  \<open>cleanTitle + " " + summary\<close> is never empty, and when \<open>extractKeywords\<close> throws, the
  entry ends in the inner \<open>catch\<close> and no article is pushed.
\<close>

definition processEntry ::
  "platform \<Rightarrow> clock \<Rightarrow> int \<Rightarrow> string \<Rightarrow> entry \<Rightarrow> nat \<Rightarrow> entryResult \<times> nat" where
  "processEntry P clk oneWeekAgo searchTerm e k =
     (let originalTitle = orEmpty (entry_title e);
          (cleanTitle, src) = extractSourceFromTitle originalTitle;
          pubDateStr = orElse (entry_pubDate e) (entry_isoDate e);
          (pubDateObj, k1) =
             (if truthy pubDateStr then (parseDate P (orEmpty pubDateStr), k)
              else (Some (clk k), Suc k))
      in case pubDateObj of
           None \<Rightarrow> (Failed ''Invalid time value'', k1)
         | Some t \<Rightarrow>
             if t < oneWeekAgo then (TooOld, k1)
             else
               (let pubDate = hd (str_split ''T'' (toISOString t));
                    currentTime = clk k1;
                    timeAgo = timeAgoText (currentTime - t);
                    summary = orEmpty (orElse (entry_content e) (entry_contentSnippet e));
                    lnk = orEmpty (entry_link e)
                in case extractKeywords P (Some (cleanTitle @ '' '' @ summary)) 5 of
                     Inl msg \<Rightarrow> (Failed msg, Suc k1)
                   | Inr kws \<Rightarrow>
                       (Pushed \<lparr>search_term = searchTerm, title = cleanTitle,
                                 pub_date = pubDate, time_ago = timeAgo, date_obj = t,
                                 link = lnk, source = src,
                                 keywordsStr = str_join '', '' (map fst kws)\<rparr>,
                        Suc k1)))"

text \<open>The loop over \<open>feed.items\<close>, on the pair of \<open>articles\<close> and the clock readings made.\<close>

fun processItems ::
  "platform \<Rightarrow> clock \<Rightarrow> int \<Rightarrow> string \<Rightarrow> entry list \<Rightarrow> article list \<times> nat
     \<Rightarrow> article list \<times> nat" where
  "processItems P clk oneWeekAgo searchTerm [] st = st"
| "processItems P clk oneWeekAgo searchTerm (e # es) (articles, k) =
     (case processEntry P clk oneWeekAgo searchTerm e k of
        (Pushed a, k') \<Rightarrow> processItems P clk oneWeekAgo searchTerm es (articles @ [a], k')
      | (_, k') \<Rightarrow> processItems P clk oneWeekAgo searchTerm es (articles, k'))"

section \<open>Deduplicator\<close>

text \<open>\<open>seenTitles\<close> is a \<open>Set\<close>, kept as the list of its elements in insertion order.\<close>

definition isDuplicate :: "string list \<Rightarrow> string \<Rightarrow> bool" where
  "isDuplicate seenTitles titleLower =
     list_ex (\<lambda>seen. str_includes titleLower seen \<or> str_includes seen titleLower) seenTitles"

text \<open>One turn of the loop over \<open>articles\<close>, on the pair \<open>(seenTitles, uniqueArticles)\<close>.\<close>

fun dedupStep :: "string list \<times> article list \<Rightarrow> article \<Rightarrow> string list \<times> article list" where
  "dedupStep (seenTitles, uniqueArticles) a =
     (let titleLower = toLowerCase (title a)
      in if \<not> isDuplicate seenTitles titleLower
         then (setAdd titleLower seenTitles, uniqueArticles @ [a])
         else (seenTitles, uniqueArticles))"

definition dedupLoop :: "article list \<Rightarrow> string list \<times> article list" where
  "dedupLoop articles = foldl dedupStep ([], []) articles"

definition deduplicate :: "article list \<Rightarrow> article list" where
  "deduplicate articles = snd (dedupLoop articles)"

text \<open>Two articles whose lowercased titles stand in the substring relation.\<close>

definition substringRelated :: "article \<Rightarrow> article \<Rightarrow> bool" where
  "substringRelated a b \<longleftrightarrow>
     str_includes (toLowerCase (title a)) (toLowerCase (title b)) \<or>
     str_includes (toLowerCase (title b)) (toLowerCase (title a))"

text \<open>A sample article for the worked examples: a title and a publish time.\<close>

definition headline :: "string \<Rightarrow> int \<Rightarrow> article" where
  "headline t d =
     \<lparr>search_term = ''Data Breach'', title = t, pub_date = ''2024-01-08'',
      time_ago = ''0 hours ago'', date_obj = d, link = [], source = ''Unknown'',
      keywordsStr = []\<rparr>"

section \<open>Aggregator\<close>

definition essential_feeds :: "(string \<times> string) list" where
  "essential_feeds =
     [(''Data Breach'',
       ''https://news.google.com/rss/search?q=data+breach&hl=en-US&gl=US&ceid=US:en''),
      (''Ransomware'',
       ''https://news.google.com/rss/search?q=ransomware+attack&hl=en-US&gl=US&ceid=US:en''),
      (''Data Leak'',
       ''https://news.google.com/rss/search?q=data+leak&hl=en-US&gl=US&ceid=US:en''),
      (''Cybersecurity Incident'',
       ''https://news.google.com/rss/search?q=cybersecurity+incident&hl=en-US&gl=US&ceid=US:en'')]"

text \<open>
  The network is a parameter: \<open>parseURL url\<close> is what awaiting \<open>parser.parseURL(url)\<close>
  gives during this refresh, a rejection with its message (\<open>Inl\<close>) or a feed, whose
  \<open>items\<close> may be absent (\<open>Inr None\<close>). A rejected feed is logged and contributes nothing;
  so does a feed without items.
\<close>

type_synonym network = "string \<Rightarrow> string + entry list option"

definition feedStep ::
  "platform \<Rightarrow> network \<Rightarrow> clock \<Rightarrow> int \<Rightarrow> article list \<times> nat \<Rightarrow> string \<times> string
     \<Rightarrow> article list \<times> nat" where
  "feedStep P parseURL clk oneWeekAgo st feed =
     (case feed of
        (searchTerm, url) \<Rightarrow>
          (case parseURL url of
             Inl err \<Rightarrow> st
           | Inr None \<Rightarrow> st
           | Inr (Some items) \<Rightarrow>
               if items = [] then st
               else processItems P clk oneWeekAgo searchTerm items st))"

text \<open>
  The first part of \<open>fetchGoogleNews\<close>: \<open>oneWeekAgo\<close> from the first clock reading, moved
  back seven days on the local calendar, then the loop over the feeds, which fills
  \<open>articles\<close>.
\<close>

definition collectArticles :: "platform \<Rightarrow> network \<Rightarrow> clock \<Rightarrow> nat \<Rightarrow> article list \<times> nat" where
  "collectArticles P parseURL clk k0 =
     (let oneWeekAgo = sevenDaysBefore P (clk k0)
      in foldl (feedStep P parseURL clk oneWeekAgo) ([], Suc k0) essential_feeds)"

text \<open>The comparator of the final sort: \<open>(a, b) => b.date_obj - a.date_obj\<close>.\<close>

definition newestFirst :: "article \<Rightarrow> article \<Rightarrow> int" where
  "newestFirst a b = date_obj b - date_obj a"

text \<open>
  \<open>fetchGoogleNews\<close>: collect, deduplicate, sort. Every exception inside is caught
  inside, so the call always returns; the result comes with the number of clock readings.
\<close>

definition fetchGoogleNews :: "platform \<Rightarrow> network \<Rightarrow> clock \<Rightarrow> nat \<Rightarrow> article list \<times> nat" where
  "fetchGoogleNews P parseURL clk k0 =
     (case collectArticles P parseURL clk k0 of
        (articles, k) \<Rightarrow>
          (let uniqueArticles = deduplicate articles;
               sortedArticles = arraySort newestFirst uniqueArticles
           in (sortedArticles, k)))"

section \<open>Report renderer\<close>

text \<open>
  \<open>date.toLocaleDateString('en-US', options)\<close> with the short month and the numeric day,
  and with the numeric year added: \<open>Jan 8\<close> and \<open>Jan 8, 2024\<close>, for a date of the common
  era. The date is the one of the process's local time.
\<close>

definition monthShort :: "int \<Rightarrow> string" where
  "monthShort m =
     [''Jan'', ''Feb'', ''Mar'', ''Apr'', ''May'', ''Jun'', ''Jul'', ''Aug'', ''Sep'', ''Oct'',
      ''Nov'', ''Dec''] ! nat (m - 1)"

definition formatDate :: "platform \<Rightarrow> int \<Rightarrow> string" where
  "formatDate P t =
     (case civilFromDays (localTime P t div 86400000) of
        (y, m, d) \<Rightarrow> monthShort m @ '' '' @ showNat d)"

definition formatFullDate :: "platform \<Rightarrow> int \<Rightarrow> string" where
  "formatFullDate P t =
     (case civilFromDays (localTime P t div 86400000) of
        (y, m, d) \<Rightarrow> monthShort m @ '' '' @ showNat d @ '', '' @ showInt y)"

text \<open>\<open>s.replace(pat, rep)\<close> with a string pattern replaces the first occurrence.\<close>

definition replaceFirst :: "string \<Rightarrow> string \<Rightarrow> string \<Rightarrow> string" where
  "replaceFirst pat rep s = (case cutAt pat s of None \<Rightarrow> s | Some (a, b) \<Rightarrow> a @ rep @ b)"

text \<open>The three template literals of \<open>generateHtmlReport\<close> and the fixed document.\<close>

definition noArticlesDocument :: string where
  \<open>noArticlesDocument =
     ''\<newline>'' @
     ''      <!DOCTYPE html>\<newline>'' @
     ''      <html>\<newline>'' @
     ''      <head>\<newline>'' @
     ''          <meta charset="UTF-8">\<newline>'' @
     ''          <meta name="viewport" content="width=device-width, initial-scale=1.0">\<newline>'' @
     ''          <title>Weekly Data Breach News - No Articles Found</title>\<newline>'' @
     ''          <style>\<newline>'' @
     ''              body { font-family: Arial, sans-serif; line-height: 1.6; color: #333; max-width: 800px; margin: 0 auto; padding: 20px; }\<newline>'' @
     ''              h1 { color: #4285F4; }\<newline>'' @
     ''              .message { background-color: #f8f9fa; padding: 20px; border-radius: 5px; margin: 20px 0; }\<newline>'' @
     ''          </style>\<newline>'' @
     ''      </head>\<newline>'' @
     ''      <body>\<newline>'' @
     ''          <h1>Weekly Data Breach News</h1>\<newline>'' @
     ''          <div class="message">\<newline>'' @
     ''              <h2>No data breach articles found from the past week</h2>\<newline>'' @
     ''              <p>Try running the script again later, or check your internet connection.</p>\<newline>'' @
     ''          </div>\<newline>'' @
     ''      </body>\<newline>'' @
     ''      </html>\<newline>'' @
     ''    ''\<close>

definition reportHead :: "string \<Rightarrow> nat \<Rightarrow> string" where
  \<open>reportHead dateRange n =
     ''\<newline>'' @
     ''    <!DOCTYPE html>\<newline>'' @
     ''    <html>\<newline>'' @
     ''    <head>\<newline>'' @
     ''        <meta charset="UTF-8">\<newline>'' @
     ''        <meta name="viewport" content="width=device-width, initial-scale=1.0">\<newline>'' @
     ''        <title>Weekly Data Breach News - '' @
     dateRange @
     ''</title>\<newline>'' @
     ''        <style>\<newline>'' @
     ''            body { font-family: Arial, sans-serif; line-height: 1.6; color: #333; max-width: 1200px; margin: 0 auto; padding: 20px; }\<newline>'' @
     ''            h1 { color: #4285F4; padding-bottom: 10px; border-bottom: 1px solid #eee; }\<newline>'' @
     ''            .container { overflow-x: auto; }\<newline>'' @
     ''            table { border-collapse: collapse; width: 100%; margin: 20px 0; }\<newline>'' @
     ''            th { background-color: #4285F4; color: white; padding: 10px; text-align: left; border: 1px solid #ddd; }\<newline>'' @
     ''            td { padding: 10px; border: 1px solid #ddd; vertical-align: top; }\<newline>'' @
     ''            tr:nth-child(even) { background-color: #f9f9f9; }\<newline>'' @
     ''            tr:hover { background-color: #f1f1f1; }\<newline>'' @
     ''            a { color: #4285F4; text-decoration: none; }\<newline>'' @
     ''            a:hover { text-decoration: underline; }\<newline>'' @
     ''            .keywords { font-style: italic; color: #666; }\<newline>'' @
     ''            .source { font-weight: bold; color: #d32f2f; }\<newline>'' @
     ''            .search-term { color: #388e3c; }\<newline>'' @
     ''            .date { white-space: nowrap; }\<newline>'' @
     ''            .time-ago { font-size: 0.85em; color: #666; display: block; }\<newline>'' @
     ''            .footer { margin-top: 30px; padding-top: 15px; border-top: 1px solid #eee; font-size: 0.9em; color: #666; text-align: center; }\<newline>'' @
     ''        </style>\<newline>'' @
     ''    </head>\<newline>'' @
     ''    <body>\<newline>'' @
     ''        <h1>Weekly Data Breach News</h1>\<newline>'' @
     ''        <p>Data breach and cybersecurity news from '' @
     dateRange @
     ''</p>\<newline>'' @
     ''        <p>Found '' @
     showNat (int n) @
     '' unique articles from the past week.</p>\<newline>'' @
     ''        \<newline>'' @
     ''        <div class="container">\<newline>'' @
     ''            <table>\<newline>'' @
     ''                <thead>\<newline>'' @
     ''                    <tr>\<newline>'' @
     ''                        <th>Date</th>\<newline>'' @
     ''                        <th>Source</th>\<newline>'' @
     ''                        <th>Title</th>\<newline>'' @
     ''                        <th>Keywords</th>\<newline>'' @
     ''                        <th>Search Term</th>\<newline>'' @
     ''                    </tr>\<newline>'' @
     ''                </thead>\<newline>'' @
     ''                <tbody>\<newline>'' @
     ''  ''\<close>

definition reportRow :: "article \<Rightarrow> string" where
  \<open>reportRow a =
     ''\<newline>'' @
     ''        <tr>\<newline>'' @
     ''            <td class="date">\<newline>'' @
     ''                '' @
     pub_date a @
     ''\<newline>'' @
     ''                <span class="time-ago">'' @
     time_ago a @
     ''</span>\<newline>'' @
     ''            </td>\<newline>'' @
     ''            <td class="source">'' @
     source a @
     ''</td>\<newline>'' @
     ''            <td><a href="'' @
     link a @
     ''" target="_blank">'' @
     title a @
     ''</a></td>\<newline>'' @
     ''            <td class="keywords">'' @
     keywordsStr a @
     ''</td>\<newline>'' @
     ''            <td class="search-term">'' @
     search_term a @
     ''</td>\<newline>'' @
     ''        </tr>\<newline>'' @
     ''    ''\<close>

definition reportFoot :: "string \<Rightarrow> string" where
  \<open>reportFoot generatedOn =
     ''\<newline>'' @
     ''                </tbody>\<newline>'' @
     ''            </table>\<newline>'' @
     ''        </div>\<newline>'' @
     ''        \<newline>'' @
     ''        <div class="footer">\<newline>'' @
     ''            <p>This weekly report was generated on '' @
     generatedOn @
     ''</p>\<newline>'' @
     ''        </div>\<newline>'' @
     ''    </body>\<newline>'' @
     ''    </html>\<newline>'' @
     ''  ''\<close>

text \<open>
  The text of the footer line: \<open>date.toISOString().replace('T', ' ').substr(0, 19)\<close>.
\<close>

definition generatedOn :: "int \<Rightarrow> string" where
  "generatedOn t = take 19 (replaceFirst ''T'' '' '' (toISOString t))"

text \<open>
  \<open>generateHtmlReport\<close>. An absent argument (\<open>!articles\<close>) is \<open>None\<close>. With articles the
  function reads the clock three times: for \<open>endDate\<close>, for \<open>startDate\<close> (moved back seven
  days on the local calendar) and for the line that says when the report was generated.
  The two dates of the range are formatted in the process's local time.
\<close>

definition generateHtmlReport ::
  "platform \<Rightarrow> clock \<Rightarrow> article list option \<Rightarrow> nat \<Rightarrow> string \<times> nat" where
  "generateHtmlReport P clk articles k =
     (case articles of
        None \<Rightarrow> (noArticlesDocument, k)
      | Some arts \<Rightarrow>
          if arts = [] then (noArticlesDocument, k)
          else
            (let endDate = clk k;
                 startDate = sevenDaysBefore P (clk (k + 1));
                 dateRange = formatDate P startDate @ '' - '' @ formatFullDate P endDate
             in (reportHead dateRange (length arts) @ concat (map reportRow arts) @
                 reportFoot (generatedOn (clk (k + 2))),
                 k + 3)))"

section \<open>Cache and the route \<open>/api/breach-news\<close>\<close>

text \<open>
  The JSON payload and the module-level \<open>newsCache\<close>; \<open>None\<close> is \<open>null\<close>. The fields
  \<open>date_range.start\<close>, \<open>date_range.end\<close> and \<open>articles\<close> of the payload are
  \<open>date_range_start\<close>, \<open>date_range_end\<close> and \<open>result_articles\<close> here.
\<close>

record resultMeta =
  generated_at :: string
  article_count :: nat
  sources :: nat
  date_range_start :: string
  date_range_end :: string

record newsResult =
  meta :: resultMeta
  result_articles :: "article list"

record newsCache =
  data :: "newsResult option"
  timestamp :: "int option"
  expiresIn :: int

definition initialCache :: newsCache where
  "initialCache = \<lparr>data = None, timestamp = None, expiresIn = 3600000\<rparr>"

text \<open>
  The test \<open>newsCache.data && newsCache.timestamp && (now - newsCache.timestamp <
  newsCache.expiresIn)\<close>: an object is truthy, a number is truthy unless it is 0.
\<close>

definition cacheValid :: "newsCache \<Rightarrow> int \<Rightarrow> bool" where
  "cacheValid cache now \<longleftrightarrow>
     (case (data cache, timestamp cache) of
        (Some d, Some ts) \<Rightarrow> ts \<noteq> 0 \<and> now - ts < expiresIn cache
      | _ \<Rightarrow> False)"

text \<open>The result object, from the articles and the three clock readings it takes.\<close>

definition buildResult :: "article list \<Rightarrow> int \<Rightarrow> int \<Rightarrow> int \<Rightarrow> newsResult" where
  "buildResult arts tGenerated tStart tEnd =
     \<lparr>meta =
        \<lparr>generated_at = toISOString tGenerated,
         article_count = length arts,
         sources = length (remdups (map source arts)),
         date_range_start = hd (str_split ''T'' (toISOString (tStart - 7 * 24 * 60 * 60 * 1000))),
         date_range_end = hd (str_split ''T'' (toISOString tEnd))\<rparr>,
      result_articles = arts\<rparr>"

text \<open>
  The response: \<open>res.json(payload)\<close> with status 200, or status 500 with the message of
  the error.
\<close>

datatype response = Ok200 newsResult | Error500 string

text \<open>
  The handler. The awaited \<open>fetchGoogleNews()\<close> is a parameter: called after \<open>k\<close> clock
  readings it throws (\<open>Inl\<close> with the message) or returns the articles, and says how many
  readings have been made then. The handler returns the response, the cache it leaves
  and the number of clock readings. On a valid cache it returns before the fetch.
\<close>

type_synonym fetcher = "nat \<Rightarrow> (string + article list) \<times> nat"

definition apiBreachNews ::
  "clock \<Rightarrow> fetcher \<Rightarrow> newsCache \<Rightarrow> nat \<Rightarrow> response \<times> newsCache \<times> nat" where
  "apiBreachNews clk fetch cache k =
     (let now = clk k
      in case (if cacheValid cache now then data cache else None) of
           Some d \<Rightarrow> (Ok200 d, cache, Suc k)
         | None \<Rightarrow>
             (case fetch (Suc k) of
                (Inl msg, k1) \<Rightarrow> (Error500 msg, cache, k1)
              | (Inr arts, k1) \<Rightarrow>
                  (let result = buildResult arts (clk k1) (clk (k1 + 1)) (clk (k1 + 2))
                   in (Ok200 result,
                       cache\<lparr>data := Some result, timestamp := Some now\<rparr>,
                       k1 + 3))))"

text \<open>The fetcher that the server uses: \<open>fetchGoogleNews\<close>, which does not throw.\<close>

definition googleNewsFetcher :: "platform \<Rightarrow> network \<Rightarrow> clock \<Rightarrow> fetcher" where
  "googleNewsFetcher P parseURL clk k =
     (case fetchGoogleNews P parseURL clk k of (arts, k1) \<Rightarrow> (Inr arts, k1))"

section \<open>Sample data for the worked examples\<close>

text \<open>
  A clock that starts at 2024-01-08T00:00:00Z and advances one millisecond per reading,
  feed entries with a given title and publish date, and networks on which the first
  feed answers with given items and the other three fail.
\<close>

definition sampleClock :: clock where
  "sampleClock k = 1704672000000 + int k"

definition sampleEntry :: "string \<Rightarrow> string option \<Rightarrow> entry" where
  "sampleEntry t d =
     \<lparr>entry_title = Some t, entry_pubDate = d, entry_isoDate = None, entry_content = None,
      entry_contentSnippet = Some ''Records exposed'',
      entry_link = Some ''https://news.example/story''\<rparr>"

definition sampleNetwork :: "entry list \<Rightarrow> network" where
  "sampleNetwork items url =
     (if url = ''https://news.google.com/rss/search?q=data+breach&hl=en-US&gl=US&ceid=US:en''
      then Inr (Some items)
      else Inl ''getaddrinfo ENOTFOUND news.google.com'')"

definition todayFeed :: network where
  "todayFeed =
     sampleNetwork [sampleEntry ''Breach Hits Firm - Example News''
                      (Some ''Mon, 08 Jan 2024 00:00:00 GMT'')]"

definition mixedFeed :: network where
  "mixedFeed =
     sampleNetwork
       [sampleEntry ''Old Breach - Example News'' (Some ''Sun, 31 Dec 2023 00:00:00 GMT''),
        sampleEntry ''Breach Hits Firm - Example News'' (Some ''Mon, 08 Jan 2024 00:00:00 GMT''),
        sampleEntry ''Leak At Bank - Daily Wire'' (Some ''Fri, 01 Jan 2100 00:00:00 GMT'')]"

definition badDateFeed :: network where
  "badDateFeed =
     sampleNetwork [sampleEntry ''Breach Hits Firm - Example News'' (Some ''not a date'')]"

text \<open>
  For the cache: a fetcher that throws, a cache whose entry is older than an hour, and
  three requests in sequence on a clock that reads 2024-01-08T00:00:00Z at the first,
  30 minutes later at the second and 61 minutes later at the third.
\<close>

definition failingFetcher :: fetcher where
  "failingFetcher k = (Inl ''connect ETIMEDOUT'', k)"

definition requestClock :: clock where
  "requestClock k =
     (if k < 10 then 1704672000000 + int k
      else if k < 20 then 1704672000000 + 30 * 60 * 1000 + int (k - 10)
      else 1704672000000 + 61 * 60 * 1000 + int (k - 20))"

definition sampleFetcher :: fetcher where
  "sampleFetcher = googleNewsFetcher samplePlatform todayFeed requestClock"

definition firstRequest :: "response \<times> newsCache \<times> nat" where
  "firstRequest = apiBreachNews requestClock sampleFetcher initialCache 0"

definition secondRequest :: "response \<times> newsCache \<times> nat" where
  "secondRequest = apiBreachNews requestClock sampleFetcher (fst (snd firstRequest)) 10"

definition thirdRequest :: "response \<times> newsCache \<times> nat" where
  "thirdRequest = apiBreachNews requestClock sampleFetcher (fst (snd secondRequest)) 20"

definition staleCache :: newsCache where
  "staleCache =
     \<lparr>data = Some (buildResult [headline ''Breach Hits Firm'' 1704500000000]
                     1704585600000 1704585600000 1704585600000),
      timestamp = Some 1704585600000, expiresIn = 3600000\<rparr>"

section \<open>Properties of the string operations\<close>

lemma str_includes_Nil [simp]: "str_includes s []"
  by (cases s) simp_all

lemma str_includes_sublist: "str_includes s sub \<longleftrightarrow> sublist sub s"
  by (induction s) (auto simp: sublist_Cons_right)

lemma cutAt_None_iff: "sep \<noteq> [] \<Longrightarrow> cutAt sep s = None \<longleftrightarrow> \<not> str_includes s sep"
  by (induction s) auto

lemma cutAt_Some_decomp: "cutAt sep s = Some (a, b) \<Longrightarrow> s = a @ sep @ b"
proof (induction s arbitrary: a)
  case Nil
  then show ?case by simp
next
  case (Cons c cs)
  show ?case
  proof (cases "prefix sep (c # cs)")
    case True
    with Cons.prems have ab: "a = []" "b = drop (length sep) (c # cs)" by auto
    from True obtain r where r: "c # cs = sep @ r" by (auto simp: prefix_def)
    with ab show ?thesis by simp
  next
    case False
    with Cons.prems obtain a' where a': "cutAt sep cs = Some (a', b)" "a = c # a'"
      by (auto split: prod.splits)
    with Cons.IH show ?thesis by auto
  qed
qed

lemma str_split_not_Nil: "sep \<noteq> [] \<Longrightarrow> str_split sep s \<noteq> []"
  by (subst str_split.simps) (auto split: option.splits)

lemma str_join_Cons: "ps \<noteq> [] \<Longrightarrow> str_join sep (p # ps) = p @ sep @ str_join sep ps"
  by (cases ps) simp_all

lemma str_join_snoc: "ps \<noteq> [] \<Longrightarrow> str_join sep (ps @ [p]) = str_join sep ps @ sep @ p"
proof (induction ps)
  case Nil
  then show ?case by simp
next
  case (Cons q qs)
  then show ?case by (cases qs) simp_all
qed

lemma str_join_split: "sep \<noteq> [] \<Longrightarrow> str_join sep (str_split sep s) = s"
proof (induction sep s rule: str_split.induct)
  case (1 sep s)
  show ?case
  proof (cases "cutAt sep s")
    case None
    with "1.prems" show ?thesis by (subst str_split.simps) simp
  next
    case (Some ab)
    obtain a b where ab: "ab = (a, b)" by (cases ab)
    have ih: "str_join sep (str_split sep b) = b"
      using "1.IH" "1.prems" Some ab by simp
    have "str_split sep s = a # str_split sep b"
      using "1.prems" Some ab by (subst str_split.simps) simp
    then have "str_join sep (str_split sep s) = a @ sep @ b"
      using ih str_split_not_Nil [OF "1.prems"] by (simp add: str_join_Cons)
    with cutAt_Some_decomp Some ab show ?thesis by metis
  qed
qed

lemma last_str_split_free:
  "sep \<noteq> [] \<Longrightarrow> \<not> str_includes (last (str_split sep s)) sep"
proof (induction sep s rule: str_split.induct)
  case (1 sep s)
  show ?case
  proof (cases "cutAt sep s")
    case None
    then have "str_split sep s = [s]"
      using "1.prems" by (subst str_split.simps) simp
    with None "1.prems" show ?thesis by (simp add: cutAt_None_iff)
  next
    case (Some ab)
    obtain a b where ab: "ab = (a, b)" by (cases ab)
    have ih: "\<not> str_includes (last (str_split sep b)) sep"
      using "1.IH" "1.prems" Some ab by simp
    have "str_split sep s = a # str_split sep b"
      using "1.prems" Some ab by (subst str_split.simps) simp
    with ih str_split_not_Nil [OF "1.prems"] show ?thesis by simp
  qed
qed

lemma str_split_two:
  "sep \<noteq> [] \<Longrightarrow> str_includes s sep \<Longrightarrow> butlast (str_split sep s) \<noteq> []"
proof -
  assume sep: "sep \<noteq> []" and inc: "str_includes s sep"
  then obtain a b where c: "cutAt sep s = Some (a, b)"
    using cutAt_None_iff [of sep s] by (cases "cutAt sep s") auto
  have "str_split sep s = a # str_split sep b"
    using sep c by (subst str_split.simps) simp
  with str_split_not_Nil [OF sep] show ?thesis by simp
qed

lemma lastCut_None_iff: "sep \<noteq> [] \<Longrightarrow> lastCut sep s = None \<longleftrightarrow> \<not> str_includes s sep"
  by (induction s) (auto split: option.splits)

lemma lastCut_unique:
  "sep \<noteq> [] \<Longrightarrow> \<not> str_includes (tl (sep @ s)) sep \<Longrightarrow> lastCut sep (t @ sep @ s) = Some (t, s)"
proof (induction t)
  case Nil
  then obtain c cs where ccs: "sep @ s = c # cs" by (cases "sep @ s") auto
  with Nil have "lastCut sep cs = None" by (simp add: lastCut_None_iff)
  moreover have "prefix sep (c # cs)" using ccs by (metis prefixI)
  moreover have "drop (length sep) (c # cs) = s" using ccs by (metis append_eq_conv_conj)
  ultimately show ?case using ccs by simp
next
  case (Cons x t)
  then show ?case by simp
qed

section \<open>Numbers and dates: results\<close>

text \<open>
  Reading a number back from its digits shows that the printed forms are injective; the
  year of a day number starts on or before the day and the next year after it, so month
  and day of the month are in range; and the ISO string of a time value determines the
  time value.
\<close>

lemma digitValue_digitChar:
  assumes "0 \<le> d" "d < 10"
  shows "digitValue (digitChar d) = d"
proof -
  from assms have "d = 0 \<or> d = 1 \<or> d = 2 \<or> d = 3 \<or> d = 4 \<or> d = 5 \<or> d = 6 \<or> d = 7
      \<or> d = 8 \<or> d = 9"
    by presburger
  then show ?thesis
    by (elim disjE) (simp_all add: digitValue_def digitChar_def)
qed

lemma parseNat_snoc: "parseNat (s @ [c]) = 10 * parseNat s + digitValue c"
  by (simp add: parseNat_def)

lemma parseNat_showNat: "0 \<le> n \<Longrightarrow> parseNat (showNat n) = n"
proof (induction n rule: showNat.induct)
  case (1 n)
  show ?case
  proof (cases "n < 10")
    case True
    with "1.prems" show ?thesis
      by (subst showNat.simps) (simp add: parseNat_def digitValue_digitChar)
  next
    case False
    then have "parseNat (showNat (n div 10)) = n div 10"
      using "1.IH" "1.prems" by simp
    moreover have "digitValue (digitChar (n mod 10)) = n mod 10"
      by (rule digitValue_digitChar) simp_all
    ultimately show ?thesis
      using False by (subst showNat.simps) (simp add: parseNat_snoc)
  qed
qed

lemma parseNat_zeros: "parseNat (replicate k (CHR ''0'') @ s) = parseNat s"
proof -
  have "foldl (\<lambda>n c. 10 * n + digitValue c) 0 (replicate k (CHR ''0'')) = 0"
    by (induction k) (simp_all add: digitValue_def)
  then show ?thesis by (simp add: parseNat_def)
qed

lemma parseNat_padStart: "0 \<le> n \<Longrightarrow> parseNat (padStart k (showNat n)) = n"
  by (simp add: padStart_def parseNat_zeros parseNat_showNat)

lemma length_showNat_1: "0 \<le> n \<Longrightarrow> n < 10 \<Longrightarrow> length (showNat n) = 1"
  by (subst showNat.simps) simp

lemma length_showNat_ge: "length (showNat n) \<ge> 1"
  by (subst showNat.simps) simp

lemma length_showNat_step: "10 \<le> n \<Longrightarrow> length (showNat n) = Suc (length (showNat (n div 10)))"
  by (subst showNat.simps) simp

lemma length_showNat_le:
  "0 \<le> n \<Longrightarrow> n < 10 ^ k \<Longrightarrow> 0 < k \<Longrightarrow> length (showNat n) \<le> k"
proof (induction k arbitrary: n)
  case 0
  then show ?case by simp
next
  case (Suc k)
  show ?case
  proof (cases "n < 10")
    case True
    with Suc.prems show ?thesis by (simp add: length_showNat_1)
  next
    case False
    then have k: "0 < k" using Suc.prems by (cases k) auto
    have "n div 10 < 10 ^ k" using Suc.prems by (simp add: div_less_iff_less_mult mult.commute)
    moreover have "0 \<le> n div 10" using Suc.prems by simp
    ultimately have "length (showNat (n div 10)) \<le> k" using Suc.IH k by blast
    with False show ?thesis by (simp add: length_showNat_step)
  qed
qed

lemma length_padStart: "length (padStart k s) = max k (length s)"
  by (simp add: padStart_def)

lemma length_pad2: "0 \<le> n \<Longrightarrow> n < 100 \<Longrightarrow> length (pad2 n) = 2"
  using length_showNat_le [of n 2] by (simp add: pad2_def length_padStart)

lemma length_pad3: "0 \<le> n \<Longrightarrow> n < 1000 \<Longrightarrow> length (padStart 3 (showNat n)) = 3"
  using length_showNat_le [of n 3] by (simp add: length_padStart)

lemma length_pad4: "0 \<le> n \<Longrightarrow> n < 10000 \<Longrightarrow> length (padStart 4 (showNat n)) = 4"
  using length_showNat_le [of n 4] by (simp add: length_padStart)

lemma yearFrom_upper: "day < dayFromYear (yearFrom day y + 1)"
proof (induction day y rule: yearFrom.induct)
  case (1 day y)
  then show ?case by (subst yearFrom.simps) auto
qed

lemma yearFrom_lower: "dayFromYear y \<le> day \<Longrightarrow> dayFromYear (yearFrom day y) \<le> day"
proof (induction day y rule: yearFrom.induct)
  case (1 day y)
  then show ?case by (subst yearFrom.simps) auto
qed

lemma dayFromYear_1970: "dayFromYear 1970 = 0"
  by (simp add: dayFromYear_def)

lemma dayFromYear_after: "0 \<le> k \<Longrightarrow> dayFromYear (1970 + k) \<le> 366 * k"
proof (induction k rule: int_ge_induct)
  case base
  then show ?case by (simp add: dayFromYear_1970)
next
  case (step i)
  have "dayFromYear (1970 + i + 1) \<le> dayFromYear (1970 + i) + 366"
    unfolding dayFromYear_Suc [of "1970 + i"] by simp
  with step show ?case by (simp add: algebra_simps)
qed

lemma dayFromYear_before: "k \<le> 0 \<Longrightarrow> dayFromYear (1970 + k) \<le> 365 * k"
proof (induction k rule: int_le_induct)
  case base
  then show ?case by (simp add: dayFromYear_1970)
next
  case (step i)
  have "dayFromYear (1970 + (i - 1) + 1) \<ge> dayFromYear (1970 + (i - 1)) + 365"
    unfolding dayFromYear_Suc [of "1970 + (i - 1)"] by simp
  moreover have "1970 + (i - 1) + 1 = 1970 + i" by simp
  ultimately have "dayFromYear (1970 + (i - 1)) + 365 \<le> dayFromYear (1970 + i)"
    by (simp only:)
  with step show ?case by (simp add: algebra_simps)
qed

lemma yearFromDay_lower: "dayFromYear (yearFromDay day) \<le> day"
proof -
  have "dayFromYear (1970 + (if 0 \<le> day then day div 366 else day div 365)) \<le> day"
  proof (cases "0 \<le> day")
    case True
    then have "dayFromYear (1970 + day div 366) \<le> 366 * (day div 366)"
      by (intro dayFromYear_after) simp
    also have "\<dots> \<le> day" by simp
    finally show ?thesis using True by simp
  next
    case False
    then have "dayFromYear (1970 + day div 365) \<le> 365 * (day div 365)"
      by (intro dayFromYear_before) simp
    also have "\<dots> \<le> day" by simp
    finally show ?thesis using False by simp
  qed
  then show ?thesis unfolding yearFromDay_def by (rule yearFrom_lower)
qed

lemma yearFromDay_upper: "day < dayFromYear (yearFromDay day + 1)"
  unfolding yearFromDay_def by (rule yearFrom_upper)

lemma monthDay_fst_ge: "m \<le> fst (monthDay m x ls)"
proof (induction ls arbitrary: m x)
  case Nil
  then show ?case by simp
next
  case (Cons l ls)
  from Cons [of "m + 1" "x - l"] show ?case by simp
qed

lemma monthDay_inj: "monthDay m x ls = monthDay m x' ls \<Longrightarrow> x = x'"
proof (induction ls arbitrary: m x x')
  case Nil
  then show ?case by simp
next
  case (Cons l ls)
  show ?case
  proof (cases "x < l")
    case True
    show ?thesis
    proof (cases "x' < l")
      case True
      with \<open>x < l\<close> Cons.prems show ?thesis by simp
    next
      case False
      with \<open>x < l\<close> Cons.prems have "(m, x + 1) = monthDay (m + 1) (x' - l) ls"
        by simp
      then have "m = fst (monthDay (m + 1) (x' - l) ls)"
        by (metis fst_conv)
      with monthDay_fst_ge [of "m + 1" "x' - l" ls] show ?thesis by simp
    qed
  next
    case False
    show ?thesis
    proof (cases "x' < l")
      case True
      with \<open>\<not> x < l\<close> Cons.prems have "monthDay (m + 1) (x - l) ls = (m, x' + 1)"
        by simp
      then have "m = fst (monthDay (m + 1) (x - l) ls)"
        by simp
      with monthDay_fst_ge [of "m + 1" "x - l" ls] show ?thesis by simp
    next
      case False
      with \<open>\<not> x < l\<close> Cons.prems have "monthDay (m + 1) (x - l) ls = monthDay (m + 1) (x' - l) ls"
        by simp
      from Cons.IH [OF this] show ?thesis by simp
    qed
  qed
qed

lemma monthDay_range:
  assumes "0 \<le> x" "x < sum_list ls" "\<forall>l \<in> set ls. l \<le> 31"
  shows "fst (monthDay m x ls) < m + int (length ls) \<and>
         1 \<le> snd (monthDay m x ls) \<and> snd (monthDay m x ls) \<le> 31"
  using assms
proof (induction ls arbitrary: m x)
  case Nil
  then show ?case by simp
next
  case (Cons l ls)
  show ?case
  proof (cases "x < l")
    case True
    with Cons.prems show ?thesis by simp
  next
    case False
    with Cons.prems have "0 \<le> x - l" "x - l < sum_list ls" "\<forall>l \<in> set ls. l \<le> 31"
      by simp_all
    from Cons.IH [OF this, of "m + 1"] False show ?thesis by simp
  qed
qed

lemma sum_monthLengths: "sum_list (monthLengths leap) = (if leap then 366 else 365)"
  by (simp add: monthLengths_def)

lemma civilFromDays_range:
  assumes "civilFromDays day = (y, m, d)"
  shows "1 \<le> m \<and> m \<le> 12 \<and> 1 \<le> d \<and> d \<le> 31"
proof -
  define yr where "yr = yearFromDay day"
  define x where "x = day - dayFromYear yr"
  have md: "monthDay 1 x (monthLengths (inLeapYear yr)) = (m, d)"
    using assms by (auto simp: civilFromDays_def Let_def yr_def x_def split: prod.splits)
  have x0: "0 \<le> x" using yearFromDay_lower [of day] by (simp add: x_def yr_def)
  have "day < dayFromYear (yr + 1)" using yearFromDay_upper [of day] by (simp add: yr_def)
  then have x1: "x < sum_list (monthLengths (inLeapYear yr))"
    by (simp add: x_def dayFromYear_Suc sum_monthLengths)
  have "\<forall>l \<in> set (monthLengths (inLeapYear yr)). l \<le> 31"
    by (simp add: monthLengths_def)
  moreover have "length (monthLengths (inLeapYear yr)) = 12"
    by (simp add: monthLengths_def)
  ultimately show ?thesis
    using monthDay_range [OF x0 x1, of 1] monthDay_fst_ge [of 1 x "monthLengths (inLeapYear yr)"]
    by (simp add: md)
qed

lemma civilFromDays_inj:
  assumes "civilFromDays a = civilFromDays b"
  shows "a = b"
proof -
  from assms have y: "yearFromDay a = yearFromDay b"
    by (simp add: civilFromDays_def Let_def split: prod.splits)
  with assms have "monthDay 1 (a - dayFromYear (yearFromDay a)) (monthLengths (inLeapYear (yearFromDay a)))
      = monthDay 1 (b - dayFromYear (yearFromDay a)) (monthLengths (inLeapYear (yearFromDay a)))"
    by (simp add: civilFromDays_def Let_def split: prod.splits)
  then have "a - dayFromYear (yearFromDay a) = b - dayFromYear (yearFromDay a)"
    by (rule monthDay_inj)
  then show ?thesis by simp
qed

lemma same_length_append_eq:
  "length xs = length ys \<Longrightarrow> xs @ us = ys @ vs \<Longrightarrow> xs = ys \<and> us = vs"
  by simp

lemma pad2_inj:
  assumes "0 \<le> a" "0 \<le> b" "pad2 a = pad2 b"
  shows "a = b"
proof -
  have "a = parseNat (pad2 a)"
    using assms(1) by (simp add: pad2_def parseNat_padStart)
  also have "\<dots> = parseNat (pad2 b)"
    by (simp only: assms(3))
  also have "\<dots> = b"
    using assms(2) by (simp add: pad2_def parseNat_padStart)
  finally show ?thesis .
qed

lemma padStart_inj:
  assumes "0 \<le> a" "0 \<le> b" "padStart k (showNat a) = padStart k (showNat b)"
  shows "a = b"
proof -
  have "a = parseNat (padStart k (showNat a))"
    using assms(1) by (simp add: parseNat_padStart)
  also have "\<dots> = parseNat (padStart k (showNat b))"
    by (simp only: assms(3))
  also have "\<dots> = b"
    using assms(2) by (simp add: parseNat_padStart)
  finally show ?thesis .
qed

lemma clockText_inj:
  assumes a: "0 \<le> a" "a < 86400000" and b: "0 \<le> b" "b < 86400000"
    and eq: "clockText a = clockText b"
  shows "a = b"
proof -
  define ha where "ha = a div 3600000"
  define ma where "ma = a div 60000 mod 60"
  define sa where "sa = a div 1000 mod 60"
  define la where "la = a mod 1000"
  define hb where "hb = b div 3600000"
  define mb where "mb = b div 60000 mod 60"
  define sb where "sb = b div 1000 mod 60"
  define lb where "lb = b mod 1000"
  have ra: "0 \<le> ha" "ha < 100" "0 \<le> ma" "ma < 100" "0 \<le> sa" "sa < 100" "0 \<le> la" "la < 1000"
    using a by (simp_all add: ha_def ma_def sa_def la_def div_less_iff_less_mult)
  have rb: "0 \<le> hb" "hb < 100" "0 \<le> mb" "mb < 100" "0 \<le> sb" "sb < 100" "0 \<le> lb" "lb < 1000"
    using b by (simp_all add: hb_def mb_def sb_def lb_def div_less_iff_less_mult)
  have e0: "pad2 ha @ ('':'' @ pad2 ma @ '':'' @ pad2 sa @ ''.'' @ padStart 3 (showNat la))
      = pad2 hb @ ('':'' @ pad2 mb @ '':'' @ pad2 sb @ ''.'' @ padStart 3 (showNat lb))"
    using eq by (simp add: clockText_def ha_def ma_def sa_def la_def hb_def mb_def sb_def lb_def)
  have l1: "length (pad2 ha) = length (pad2 hb)" using ra rb by (simp add: length_pad2)
  from same_length_append_eq [OF l1 e0]
  have h: "pad2 ha = pad2 hb"
    and e1: "pad2 ma @ ('':'' @ pad2 sa @ ''.'' @ padStart 3 (showNat la))
      = pad2 mb @ ('':'' @ pad2 sb @ ''.'' @ padStart 3 (showNat lb))"
    by simp_all
  have l2: "length (pad2 ma) = length (pad2 mb)" using ra rb by (simp add: length_pad2)
  from same_length_append_eq [OF l2 e1]
  have mi: "pad2 ma = pad2 mb"
    and e2: "pad2 sa @ (''.'' @ padStart 3 (showNat la)) = pad2 sb @ (''.'' @ padStart 3 (showNat lb))"
    by simp_all
  have l3: "length (pad2 sa) = length (pad2 sb)" using ra rb by (simp add: length_pad2)
  from same_length_append_eq [OF l3 e2]
  have s: "pad2 sa = pad2 sb" and l: "padStart 3 (showNat la) = padStart 3 (showNat lb)"
    by simp_all
  have "ha = hb" "ma = mb" "sa = sb" "la = lb"
    using h mi s l ra rb pad2_inj padStart_inj by blast+
  moreover have "a = ((ha * 60 + ma) * 60 + sa) * 1000 + la"
  proof -
    have "a div 60000 = a div 1000 div 60" "a div 3600000 = a div 60000 div 60"
      by (simp_all add: zdiv_zmult2_eq [symmetric])
    then show ?thesis
      unfolding ha_def ma_def sa_def la_def
      by (metis add.commute div_mult_mod_eq mult.commute)
  qed
  moreover have "b = ((hb * 60 + mb) * 60 + sb) * 1000 + lb"
  proof -
    have "b div 60000 = b div 1000 div 60" "b div 3600000 = b div 60000 div 60"
      by (simp_all add: zdiv_zmult2_eq [symmetric])
    then show ?thesis
      unfolding hb_def mb_def sb_def lb_def
      by (metis add.commute div_mult_mod_eq mult.commute)
  qed
  ultimately show ?thesis by simp
qed

lemma length_clockText:
  assumes "0 \<le> a" "a < 86400000"
  shows "length (clockText a) = 12"
proof -
  have "0 \<le> a div 3600000" "a div 3600000 < 100"
    using assms by (simp_all add: div_less_iff_less_mult)
  then show ?thesis
    using assms by (simp add: clockText_def length_pad2 length_pad3)
qed

lemma length_yearText_short: "0 \<le> y \<Longrightarrow> y \<le> 9999 \<Longrightarrow> length (yearText y) = 4"
  by (simp add: yearText_def length_pad4)

lemma length_yearText_long: "\<not> (0 \<le> y \<and> y \<le> 9999) \<Longrightarrow> length (yearText y) \<ge> 7"
  by (auto simp: yearText_def length_padStart)

lemma yearText_inj:
  assumes "yearText a = yearText b"
  shows "a = b"
proof (cases "0 \<le> a \<and> a \<le> 9999")
  case True
  then have la: "length (yearText a) = 4" by (simp add: length_yearText_short)
  show ?thesis
  proof (cases "0 \<le> b \<and> b \<le> 9999")
    case True
    with \<open>0 \<le> a \<and> a \<le> 9999\<close> assms show ?thesis
      using padStart_inj [of a b 4] by (simp add: yearText_def)
  next
    case False
    then have "length (yearText b) \<ge> 7" by (rule length_yearText_long)
    with la assms show ?thesis by simp
  qed
next
  case False
  then have la: "length (yearText a) \<ge> 7" by (rule length_yearText_long)
  show ?thesis
  proof (cases "0 \<le> b \<and> b \<le> 9999")
    case True
    then have "length (yearText b) = 4" by (simp add: length_yearText_short)
    with la assms show ?thesis by simp
  next
    case False
    with \<open>\<not> (0 \<le> a \<and> a \<le> 9999)\<close> assms
    have sgn: "(a < 0) = (b < 0)" and "padStart 6 (showNat \<bar>a\<bar>) = padStart 6 (showNat \<bar>b\<bar>)"
      by (auto simp: yearText_def split: if_splits)
    then have "\<bar>a\<bar> = \<bar>b\<bar>" using padStart_inj [of "\<bar>a\<bar>" "\<bar>b\<bar>" 6] by simp
    with sgn show ?thesis by linarith
  qed
qed

lemma toISOString_inj:
  assumes "toISOString s = toISOString t"
  shows "s = t"
proof -
  obtain y m d where cs: "civilFromDays (s div 86400000) = (y, m, d)"
    by (cases "civilFromDays (s div 86400000)") auto
  obtain y' m' d' where ct: "civilFromDays (t div 86400000) = (y', m', d')"
    by (cases "civilFromDays (t div 86400000)") auto
  have rs: "1 \<le> m" "m \<le> 12" "1 \<le> d" "d \<le> 31" using civilFromDays_range [OF cs] by simp_all
  have rt: "1 \<le> m'" "m' \<le> 12" "1 \<le> d'" "d' \<le> 31" using civilFromDays_range [OF ct] by simp_all
  define a where "a = s mod 86400000"
  define b where "b = t mod 86400000"
  have ra: "0 \<le> a" "a < 86400000" and rb: "0 \<le> b" "b < 86400000"
    by (simp_all add: a_def b_def)
  define tailS where "tailS = ''-'' @ pad2 m @ ''-'' @ pad2 d @ ''T'' @ clockText a @ ''Z''"
  define tailT where "tailT = ''-'' @ pad2 m' @ ''-'' @ pad2 d' @ ''T'' @ clockText b @ ''Z''"
  have ls: "length tailS = 20" "length tailT = 20"
    using rs rt ra rb by (simp_all add: tailS_def tailT_def length_pad2 length_clockText)
  have "yearText y @ tailS = yearText y' @ tailT"
    using assms by (simp add: toISOString_def cs ct tailS_def tailT_def a_def b_def)
  then have yy: "yearText y = yearText y'" and tt: "tailS = tailT"
    using ls by simp_all
  from yy have y: "y = y'" by (rule yearText_inj)
  from tt have e1: "pad2 m @ (''-'' @ pad2 d @ ''T'' @ clockText a @ ''Z'')
      = pad2 m' @ (''-'' @ pad2 d' @ ''T'' @ clockText b @ ''Z'')"
    by (simp add: tailS_def tailT_def)
  have l1: "length (pad2 m) = length (pad2 m')" using rs rt by (simp add: length_pad2)
  from same_length_append_eq [OF l1 e1]
  have pm: "pad2 m = pad2 m'"
    and e2: "pad2 d @ (''T'' @ clockText a @ ''Z'') = pad2 d' @ (''T'' @ clockText b @ ''Z'')"
    by simp_all
  have l2: "length (pad2 d) = length (pad2 d')" using rs rt by (simp add: length_pad2)
  from same_length_append_eq [OF l2 e2]
  have pd: "pad2 d = pad2 d'" and e3: "clockText a = clockText b"
    by simp_all
  have "m = m'" "d = d'" using pm pd rs rt pad2_inj [of m m'] pad2_inj [of d d'] by simp_all
  with y cs ct have "civilFromDays (s div 86400000) = civilFromDays (t div 86400000)" by simp
  then have days: "s div 86400000 = t div 86400000" by (rule civilFromDays_inj)
  from clockText_inj [OF ra rb e3] have "s mod 86400000 = t mod 86400000"
    by (simp add: a_def b_def)
  with days show ?thesis by (metis div_mult_mod_eq)
qed

section \<open>The title splitter: results\<close>

text \<open>
  C6, as the specification states it, fails where separators overlap: \<open>split\<close> consumes
  the first \<open>" - "\<close> of \<open>"a - - b"\<close> whole, so the source is \<open>"- b"\<close>, while the last
  occurrence of the separator would give the title \<open>"a -"\<close> and the source \<open>"b"\<close>.
\<close>

theorem extractSourceFromTitle_overlap_counterexample:
  "extractSourceFromTitle ''a - - b'' = (''a'', ''- b'') \<and>
   splitAtLastSeparator ''a - - b'' = (''a -'', ''b'')"
  by (simp add: extractSourceFromTitle_def splitAtLastSeparator_def str_split.simps)

text \<open>
  C6 (amended): a title without the separator \<open>" - "\<close> is returned unchanged with the
  source \<open>"Unknown"\<close>. A title with the separator is cut at a separator: it is the
  returned title, then \<open>" - "\<close>, then the returned source; the source is the last piece of
  the left-to-right split without overlaps and holds no separator; and unless the source
  begins with \<open>"- "\<close> (overlapping separators), the cut is at the last occurrence of the
  separator, as the specification says.
\<close>

theorem extractSourceFromTitle_cut:
  "(\<not> str_includes raw '' - '' \<longrightarrow> extractSourceFromTitle raw = (raw, ''Unknown'')) \<and>
   (str_includes raw '' - '' \<longrightarrow>
      raw = fst (extractSourceFromTitle raw) @ '' - '' @ snd (extractSourceFromTitle raw) \<and>
      snd (extractSourceFromTitle raw) = last (str_split '' - '' raw) \<and>
      \<not> str_includes (snd (extractSourceFromTitle raw)) '' - '' \<and>
      (\<not> prefix ''- '' (snd (extractSourceFromTitle raw)) \<longrightarrow>
         extractSourceFromTitle raw = splitAtLastSeparator raw))"
proof (intro conjI impI)
  assume "\<not> str_includes raw '' - ''"
  then show "extractSourceFromTitle raw = (raw, ''Unknown'')"
    by (simp add: extractSourceFromTitle_def)
next
  assume inc: "str_includes raw '' - ''"
  define parts where "parts = str_split '' - '' raw"
  have res: "extractSourceFromTitle raw = (str_join '' - '' (butlast parts), last parts)"
    using inc by (simp add: extractSourceFromTitle_def parts_def Let_def)
  have ne: "parts \<noteq> []" "butlast parts \<noteq> []"
    using str_split_not_Nil [of "'' - ''" raw] str_split_two [of "'' - ''" raw] inc
    by (simp_all add: parts_def)
  have "str_join '' - '' (butlast parts @ [last parts]) = raw"
    using ne(1) str_join_split [of "'' - ''" raw] by (simp add: parts_def)
  then have decomp: "raw = str_join '' - '' (butlast parts) @ '' - '' @ last parts"
    using ne(2) str_join_snoc by metis
  have free: "\<not> str_includes (last parts) '' - ''"
    using last_str_split_free [of "'' - ''" raw] by (simp add: parts_def)
  show "raw = fst (extractSourceFromTitle raw) @ '' - '' @ snd (extractSourceFromTitle raw)"
    using decomp res by simp
  show "snd (extractSourceFromTitle raw) = last (str_split '' - '' raw)"
    using res by (simp add: parts_def)
  show "\<not> str_includes (snd (extractSourceFromTitle raw)) '' - ''"
    using free res by simp
  assume "\<not> prefix ''- '' (snd (extractSourceFromTitle raw))"
  then have np: "\<not> prefix ''- '' (last parts)" using res by simp
  have "\<not> str_includes (tl ('' - '' @ last parts)) '' - ''"
    using free np by simp
  then have "lastCut '' - '' (str_join '' - '' (butlast parts) @ '' - '' @ last parts)
      = Some (str_join '' - '' (butlast parts), last parts)"
    by (intro lastCut_unique) simp_all
  then show "extractSourceFromTitle raw = splitAtLastSeparator raw"
    using decomp res by (simp add: splitAtLastSeparator_def)
qed

theorem extractSourceFromTitle_cut_witness:
  "str_includes ''Breach Hits Firm - Example News'' '' - '' \<and>
   \<not> prefix ''- '' (snd (extractSourceFromTitle ''Breach Hits Firm - Example News'')) \<and>
   extractSourceFromTitle ''Breach Hits Firm - Example News''
     = (''Breach Hits Firm'', ''Example News'') \<and>
   splitAtLastSeparator ''Breach Hits Firm - Example News''
     = (''Breach Hits Firm'', ''Example News'') \<and>
   \<not> str_includes ''No Separator Here'' '' - '' \<and>
   extractSourceFromTitle ''No Separator Here'' = (''No Separator Here'', ''Unknown'')"
proof -
  have inc: "str_includes ''Breach Hits Firm - Example News'' '' - ''"
    by simp
  have val: "extractSourceFromTitle ''Breach Hits Firm - Example News''
      = (''Breach Hits Firm'', ''Example News'')"
    by (simp add: extractSourceFromTitle_def str_split.simps)
  have np: "\<not> prefix ''- '' (snd (extractSourceFromTitle ''Breach Hits Firm - Example News''))"
    by (simp add: val)
  have "extractSourceFromTitle ''Breach Hits Firm - Example News''
      = splitAtLastSeparator ''Breach Hits Firm - Example News''"
    using extractSourceFromTitle_cut [of "''Breach Hits Firm - Example News''"] inc np
    by blast
  then have spec: "splitAtLastSeparator ''Breach Hits Firm - Example News''
      = (''Breach Hits Firm'', ''Example News'')"
    using val by simp
  have no: "\<not> str_includes ''No Separator Here'' '' - ''"
    by simp
  then have "extractSourceFromTitle ''No Separator Here'' = (''No Separator Here'', ''Unknown'')"
    using extractSourceFromTitle_cut [of "''No Separator Here''"] by blast
  with inc np val spec no show ?thesis by blast
qed

section \<open>The deduplicator: results\<close>

lemma isDuplicate_iff:
  "isDuplicate seenTitles t \<longleftrightarrow>
     (\<exists>s \<in> set seenTitles. str_includes t s \<or> str_includes s t)"
  by (simp add: isDuplicate_def list_ex_iff)

lemma dedupLoop_snoc: "dedupLoop (xs @ [a]) = dedupStep (dedupLoop xs) a"
  by (simp add: dedupLoop_def)

lemma dedupLoop_append: "dedupLoop (xs @ ys) = foldl dedupStep (dedupLoop xs) ys"
  by (simp add: dedupLoop_def)

lemma set_setAdd [simp]: "set (setAdd x s) = insert x (set s)"
  by (auto simp: setAdd_def)

lemma seen_titles_accepted:
  "set (fst (dedupLoop xs)) = (\<lambda>a. toLowerCase (title a)) ` set (snd (dedupLoop xs))"
proof (induction xs rule: rev_induct)
  case Nil
  then show ?case by (simp add: dedupLoop_def)
next
  case (snoc a xs)
  obtain seen uniq where st: "dedupLoop xs = (seen, uniq)" by (cases "dedupLoop xs")
  with snoc show ?case by (simp add: dedupLoop_snoc Let_def)
qed

lemma deduplicate_snoc:
  "deduplicate (pre @ [c]) =
     (if \<forall>a \<in> set (deduplicate pre).
           \<not> str_includes (toLowerCase (title c)) (toLowerCase (title a)) \<and>
           \<not> str_includes (toLowerCase (title a)) (toLowerCase (title c))
      then deduplicate pre @ [c] else deduplicate pre)"
proof -
  obtain seen uniq where st: "dedupLoop pre = (seen, uniq)" by (cases "dedupLoop pre")
  have "set seen = (\<lambda>a. toLowerCase (title a)) ` set uniq"
    using seen_titles_accepted [of pre] st by simp
  then have "isDuplicate seen (toLowerCase (title c)) \<longleftrightarrow>
      (\<exists>a \<in> set uniq. str_includes (toLowerCase (title c)) (toLowerCase (title a)) \<or>
                        str_includes (toLowerCase (title a)) (toLowerCase (title c)))"
    by (simp add: isDuplicate_iff)
  then show ?thesis
    using st by (auto simp: deduplicate_def dedupLoop_snoc Let_def)
qed

lemma foldl_dedupStep_seen_mono:
  "set (fst st) \<subseteq> set (fst (foldl dedupStep st ys))"
proof (induction ys arbitrary: st)
  case Nil
  then show ?case by simp
next
  case (Cons y ys)
  obtain seen uniq where st: "st = (seen, uniq)" by (cases st)
  have "set (fst st) \<subseteq> set (fst (dedupStep st y))"
    by (auto simp: st Let_def)
  with Cons [of "dedupStep st y"] show ?case by auto
qed

lemma isDuplicate_empty_seen: "[] \<in> set seenTitles \<Longrightarrow> isDuplicate seenTitles t"
  unfolding isDuplicate_iff by (rule bexI [of _ "[]"]) simp_all

lemma foldl_dedupStep_blocked:
  "[] \<in> set (fst st) \<Longrightarrow> foldl dedupStep st ys = st"
proof (induction ys)
  case Nil
  then show ?case by simp
next
  case (Cons y ys)
  obtain seen uniq where st: "st = (seen, uniq)" by (cases st)
  with Cons.prems have "dedupStep st y = st"
    by (simp add: isDuplicate_empty_seen)
  with Cons show ?case by simp
qed

lemma accepted_seen:
  assumes "deduplicate (pre @ [a]) = deduplicate pre @ [a]"
  shows "toLowerCase (title a) \<in> set (fst (dedupLoop (pre @ a # mid)))"
proof -
  have "toLowerCase (title a) \<in> (\<lambda>a. toLowerCase (title a)) ` set (deduplicate (pre @ [a]))"
    using assms by simp
  then have "toLowerCase (title a) \<in> set (fst (dedupLoop (pre @ [a])))"
    by (simp add: seen_titles_accepted deduplicate_def)
  moreover have "dedupLoop (pre @ a # mid) = foldl dedupStep (dedupLoop (pre @ [a])) mid"
    using dedupLoop_append [of "pre @ [a]" mid] by simp
  ultimately show ?thesis
    using foldl_dedupStep_seen_mono [of "dedupLoop (pre @ [a])" mid] by auto
qed

lemma later_related_rejected:
  assumes rel: "substringRelated a b"
    and acc: "deduplicate (pre @ [a]) = deduplicate pre @ [a]"
  shows "deduplicate (pre @ a # mid @ [b]) = deduplicate (pre @ a # mid)"
proof -
  obtain seen uniq where st: "dedupLoop (pre @ a # mid) = (seen, uniq)"
    by (cases "dedupLoop (pre @ a # mid)")
  have "toLowerCase (title a) \<in> set seen"
    using accepted_seen [OF acc, of mid] st by simp
  then have "isDuplicate seen (toLowerCase (title b))"
    using rel by (auto simp: isDuplicate_iff substringRelated_def)
  then have "dedupStep (seen, uniq) b = (seen, uniq)" by simp
  moreover have "dedupLoop (pre @ a # mid @ [b]) = dedupStep (dedupLoop (pre @ a # mid)) b"
    using dedupLoop_snoc [of "pre @ a # mid" b] by simp
  ultimately show ?thesis by (simp add: deduplicate_def st)
qed

lemma deduplicate_single: "deduplicate [a] = [a]"
  by (simp add: deduplicate_def dedupLoop_def isDuplicate_def Let_def)

lemma lower1: "toLowerCase ''Acme Data Breach'' = ''acme data breach''" by code_simp
lemma lower2: "toLowerCase ''Data Breach'' = ''data breach''" by code_simp
lemma lower3: "toLowerCase ''New Data Breach Hits Bank'' = ''new data breach hits bank''" by code_simp

lemma lower4: "toLowerCase ''Major Breach At Acme Corp'' = ''major breach at acme corp''" by code_simp
lemma lower5: "toLowerCase ''Breach At Acme Corp'' = ''breach at acme corp''" by code_simp
lemma lower6: "toLowerCase ''Ransomware Hits Hospital'' = ''ransomware hits hospital''" by code_simp

text \<open>
  C2 (amended): a candidate appended to any sequence is accepted if and only if its
  lowercased title neither contains nor is contained in the lowercased title of an
  article accepted before it. Of two candidates whose titles stand in the substring
  relation, the later one is rejected whenever the earlier one was accepted, so the two
  are never both retained; a sequence of just these two retains exactly the first.
\<close>

theorem deduplicate_accepts:
  "deduplicate (pre @ [c]) =
     (if \<forall>a \<in> set (deduplicate pre).
           \<not> str_includes (toLowerCase (title c)) (toLowerCase (title a)) \<and>
           \<not> str_includes (toLowerCase (title a)) (toLowerCase (title c))
      then deduplicate pre @ [c] else deduplicate pre) \<and>
   (substringRelated a b \<longrightarrow> deduplicate (pre @ [a]) = deduplicate pre @ [a] \<longrightarrow>
      deduplicate (pre @ a # mid @ [b]) = deduplicate (pre @ a # mid)) \<and>
   (substringRelated a b \<longrightarrow> deduplicate [a, b] = [a])"
proof (intro conjI impI)
  show "deduplicate (pre @ [c]) =
     (if \<forall>a \<in> set (deduplicate pre).
           \<not> str_includes (toLowerCase (title c)) (toLowerCase (title a)) \<and>
           \<not> str_includes (toLowerCase (title a)) (toLowerCase (title c))
      then deduplicate pre @ [c] else deduplicate pre)"
    by (rule deduplicate_snoc)
next
  assume "substringRelated a b" "deduplicate (pre @ [a]) = deduplicate pre @ [a]"
  then show "deduplicate (pre @ a # mid @ [b]) = deduplicate (pre @ a # mid)"
    by (rule later_related_rejected)
next
  assume rel: "substringRelated a b"
  have "deduplicate ([] @ [a]) = deduplicate [] @ [a]"
    by (simp add: deduplicate_single) (simp add: deduplicate_def dedupLoop_def)
  from later_related_rejected [OF rel this, of "[]"] show "deduplicate [a, b] = [a]"
    by (simp add: deduplicate_single)
qed

theorem deduplicate_accepts_witness:
  "substringRelated (headline ''Major Breach At Acme Corp'' 2) (headline ''Breach At Acme Corp'' 1) \<and>
   deduplicate ([] @ [headline ''Major Breach At Acme Corp'' 2])
     = deduplicate [] @ [headline ''Major Breach At Acme Corp'' 2] \<and>
   deduplicate [headline ''Major Breach At Acme Corp'' 2, headline ''Breach At Acme Corp'' 1]
     = [headline ''Major Breach At Acme Corp'' 2] \<and>
   deduplicate [headline ''Major Breach At Acme Corp'' 2]
     = [headline ''Major Breach At Acme Corp'' 2] \<and>
   \<not> str_includes (toLowerCase (title (headline ''Ransomware Hits Hospital'' 1)))
         (toLowerCase (title (headline ''Major Breach At Acme Corp'' 2))) \<and>
   \<not> str_includes (toLowerCase (title (headline ''Major Breach At Acme Corp'' 2)))
         (toLowerCase (title (headline ''Ransomware Hits Hospital'' 1))) \<and>
   deduplicate ([headline ''Major Breach At Acme Corp'' 2] @ [headline ''Ransomware Hits Hospital'' 1])
     = [headline ''Major Breach At Acme Corp'' 2, headline ''Ransomware Hits Hospital'' 1]"
proof -
  let ?A = "headline ''Major Breach At Acme Corp'' 2"
  let ?B = "headline ''Breach At Acme Corp'' 1"
  let ?C = "headline ''Ransomware Hits Hospital'' 1"
  have rel: "substringRelated ?A ?B"
    by (simp add: substringRelated_def headline_def lower4 lower5)
  have one: "deduplicate [?A] = [?A]"
    by (simp add: deduplicate_def dedupLoop_def isDuplicate_def Let_def)
  have acc: "deduplicate ([] @ [?A]) = deduplicate [] @ [?A]"
    using one by (simp add: deduplicate_def dedupLoop_def)
  have two: "deduplicate [?A, ?B] = [?A]"
    using deduplicate_accepts [of "[]" ?C ?A ?B "[]"] rel by blast
  have free: "\<forall>a \<in> set (deduplicate [?A]).
      \<not> str_includes (toLowerCase (title ?C)) (toLowerCase (title a)) \<and>
      \<not> str_includes (toLowerCase (title a)) (toLowerCase (title ?C))"
    by (simp add: one) (simp add: headline_def lower4 lower6)
  have "deduplicate ([?A] @ [?C]) = deduplicate [?A] @ [?C]"
    using deduplicate_accepts [of "[?A]" ?C ?A ?B "[]"] free by presburger
  then have three: "deduplicate ([?A] @ [?C]) = [?A, ?C]"
    using one by simp
  have sep: "\<not> str_includes (toLowerCase (title ?C)) (toLowerCase (title ?A))"
    "\<not> str_includes (toLowerCase (title ?A)) (toLowerCase (title ?C))"
    using free one by simp_all
  from rel acc two one sep three show ?thesis by blast
qed

text \<open>
  C2 as stated fails: the earlier of two related titles need not be the one retained.
  \<open>"Data Breach"\<close> is rejected because of the accepted \<open>"Acme Data Breach"\<close>; the later
  \<open>"New Data Breach Hits Bank"\<close> contains \<open>"data breach"\<close>, is unrelated to every accepted
  title, and is retained.
\<close>

theorem deduplicate_first_seen_counterexample:
  "substringRelated (headline ''Data Breach'' 2) (headline ''New Data Breach Hits Bank'' 1) \<and>
   deduplicate [headline ''Acme Data Breach'' 3, headline ''Data Breach'' 2,
                headline ''New Data Breach Hits Bank'' 1]
     = [headline ''Acme Data Breach'' 3, headline ''New Data Breach Hits Bank'' 1]"
  by (simp add: substringRelated_def headline_def deduplicate_def dedupLoop_def
      isDuplicate_def setAdd_def lower1 lower2 lower3)

text \<open>
  C9: once a candidate with the empty lowercased title is accepted, every title counts
  as a duplicate and the output ends with that candidate, whatever follows. (The empty
  title is itself a duplicate of any seen title, so this candidate is the first one.)
\<close>

theorem empty_title_blocks:
  assumes "toLowerCase (title a) = []"
    and "\<not> isDuplicate (fst (dedupLoop pre)) (toLowerCase (title a))"
  shows "deduplicate (pre @ a # rest) = deduplicate pre @ [a] \<and>
         (\<forall>t. isDuplicate (fst (dedupLoop (pre @ a # rest))) t)"
proof -
  obtain seen uniq where st: "dedupLoop pre = (seen, uniq)" by (cases "dedupLoop pre")
  have step: "dedupLoop (pre @ [a]) = (setAdd [] seen, uniq @ [a])"
    using assms st by (simp add: dedupLoop_snoc)
  have "dedupLoop (pre @ a # rest) = foldl dedupStep (dedupLoop (pre @ [a])) rest"
    using dedupLoop_append [of "pre @ [a]" rest] by simp
  also have "\<dots> = dedupLoop (pre @ [a])"
    by (rule foldl_dedupStep_blocked) (simp add: step)
  finally have eq: "dedupLoop (pre @ a # rest) = (setAdd [] seen, uniq @ [a])"
    using step by simp
  then show ?thesis
    using st by (simp add: deduplicate_def isDuplicate_empty_seen)
qed

theorem empty_title_blocks_witness:
  "toLowerCase (title (headline [] 2)) = [] \<and>
   \<not> isDuplicate (fst (dedupLoop [])) (toLowerCase (title (headline [] 2))) \<and>
   deduplicate ([] @ headline [] 2 # [headline ''Data Breach'' 1]) = deduplicate [] @ [headline [] 2] \<and>
   deduplicate [headline [] 2, headline ''Data Breach'' 1] = [headline [] 2]"
proof -
  have h1: "toLowerCase (title (headline [] 2)) = []"
    by (simp add: headline_def toLowerCase_def)
  have h2: "\<not> isDuplicate (fst (dedupLoop [])) (toLowerCase (title (headline [] 2)))"
    by (simp add: dedupLoop_def isDuplicate_def)
  have r: "deduplicate ([] @ headline [] 2 # [headline ''Data Breach'' 1])
      = deduplicate [] @ [headline [] 2]"
    using empty_title_blocks [OF h1 h2, of "[headline ''Data Breach'' 1]"] by blast
  then have "deduplicate [headline [] 2, headline ''Data Breach'' 1] = [headline [] 2]"
    by (simp add: deduplicate_def dedupLoop_def)
  with h1 h2 r show ?thesis by blast
qed

section \<open>The text normalizer: results\<close>

lemma distinct_setAdd: "distinct s \<Longrightarrow> distinct (setAdd x s)"
  by (auto simp: setAdd_def)

lemma firstSeen_snoc: "firstSeen (ws @ [w]) = setAdd w (firstSeen ws)"
  by (simp add: firstSeen_def)

lemma set_firstSeen [simp]: "set (firstSeen ws) = set ws"
  by (induction ws rule: rev_induct) (simp_all add: firstSeen_snoc, simp add: firstSeen_def)

lemma distinct_firstSeen: "distinct (firstSeen ws)"
  by (induction ws rule: rev_induct) (simp_all add: firstSeen_snoc distinct_setAdd, simp add: firstSeen_def)

lemma map_of_keyed:
  "map_of (map (\<lambda>x. (x, f x)) ks) k = (if k \<in> set ks then Some (f k) else None)"
  by (induction ks) auto

lemma update_keyed:
  "distinct ks \<Longrightarrow> k \<in> set ks \<Longrightarrow>
     AList.update k v (map (\<lambda>x. (x, f x)) ks) = map (\<lambda>x. (x, if x = k then v else f x)) ks"
proof (induction ks)
  case Nil
  then show ?case by simp
next
  case (Cons a ks)
  show ?case
  proof (cases "a = k")
    case True
    with Cons.prems have "k \<notin> set ks" by simp
    then have "map (\<lambda>x. (x, if x = k then v else f x)) ks = map (\<lambda>x. (x, f x)) ks"
      by (intro map_cong) auto
    with True show ?thesis by simp
  next
    case False
    with Cons show ?thesis by simp
  qed
qed

lemma countWords_snoc: "countWords (ws @ [w]) = bump (countWords ws) w"
  by (simp add: countWords_def)

lemma countWords_counts:
  assumes "\<forall>w \<in> set ws. inheritedText w = None"
  shows "countWords ws = map (\<lambda>k. (k, Count (count_list ws k))) (firstSeen ws)"
  using assms
proof (induction ws rule: rev_induct)
  case Nil
  then show ?case by (simp add: countWords_def firstSeen_def)
next
  case (snoc w ws)
  then have ih: "countWords ws = map (\<lambda>k. (k, Count (count_list ws k))) (firstSeen ws)"
    and clean: "inheritedText w = None"
    by simp_all
  show ?case
  proof (cases "w \<in> set ws")
    case True
    then have look: "map_of (countWords ws) w = Some (Count (count_list ws w))"
      by (simp add: ih map_of_keyed)
    have "bump (countWords ws) w
        = AList.update w (Count (count_list ws w + 1)) (map (\<lambda>k. (k, Count (count_list ws k))) (firstSeen ws))"
      by (simp add: bump_def look) (simp add: ih)
    also have "\<dots> = map (\<lambda>k. (k, if k = w then Count (count_list ws w + 1) else Count (count_list ws k)))
        (firstSeen ws)"
      using True by (intro update_keyed) (simp_all add: distinct_firstSeen)
    also have "\<dots> = map (\<lambda>k. (k, Count (count_list (ws @ [w]) k))) (firstSeen ws)"
      by (intro map_cong) auto
    finally show ?thesis
      using True by (simp add: countWords_snoc firstSeen_snoc setAdd_def)
  next
    case False
    then have look: "map_of (countWords ws) w = None"
      by (simp add: ih map_of_keyed)
    have "bump (countWords ws) w = countWords ws @ [(w, Count 1)]"
      by (simp add: bump_def look clean)
    also have "\<dots> = map (\<lambda>k. (k, Count (count_list (ws @ [w]) k))) (firstSeen ws @ [w])"
      using False by (auto simp: ih)
    finally show ?thesis
      using False by (simp add: countWords_snoc firstSeen_snoc setAdd_def)
  qed
qed

lemma insort_key_map:
  "insort_key f (g x) (map g ys) = map g (insort_key (\<lambda>y. f (g y)) x ys)"
  by (induction ys) simp_all

lemma sort_key_map:
  "sort_key f (map g xs) = map g (sort_key (\<lambda>y. f (g y)) xs)"
  by (induction xs) (simp_all add: insort_key_map)

lemma Object_entries_keyed:
  "Object_entries (map (\<lambda>k. (k, g k)) ks)
     = map (\<lambda>k. (k, g k))
         (sort_key parseNat (filter isArrayIndex ks) @ filter (\<lambda>k. \<not> isArrayIndex k) ks)"
  by (simp add: Object_entries_def filter_map o_def sort_key_map)

lemma sortInsert_byFrequency:
  assumes "\<forall>p \<in> set (x # ys). \<exists>n. snd p = Count n"
  shows "sortInsert byFrequency x ys = insort_key (\<lambda>p. - int (countOf (snd p))) x ys"
  using assms
proof (induction ys)
  case Nil
  then show ?case by simp
next
  case (Cons y ys)
  then obtain m n where "snd x = Count m" "snd y = Count n" by auto
  with Cons show ?case by (simp add: byFrequency_def countOf_def)
qed

lemma arraySort_byFrequency:
  assumes "\<forall>p \<in> set xs. \<exists>n. snd p = Count n"
  shows "arraySort byFrequency xs = sort_key (\<lambda>p. - int (countOf (snd p))) xs"
  using assms
proof (induction xs)
  case Nil
  then show ?case by (simp add: arraySort_def)
next
  case (Cons x xs)
  then have ih: "arraySort byFrequency xs = sort_key (\<lambda>p. - int (countOf (snd p))) xs"
    by simp
  have "\<forall>p \<in> set (x # sort_key (\<lambda>p. - int (countOf (snd p))) xs). \<exists>n. snd p = Count n"
    using Cons.prems by simp
  from sortInsert_byFrequency [OF this] ih show ?case
    by (simp add: arraySort_def)
qed

lemma set_entryOrder [simp]: "set (entryOrder ws) = set ws"
  by (auto simp: entryOrder_def)

lemma sortPairs_counts:
  assumes "\<forall>p \<in> set xs. \<exists>n. snd p = Count n"
  shows "sortPairs P xs = sort_key (\<lambda>p. - int (countOf (snd p))) xs"
proof -
  have "list_all (\<lambda>p. isCount (snd p)) xs"
    using assms by (auto simp: list_all_iff isCount_def)
  then show ?thesis
    using arraySort_byFrequency [OF assms] by (simp add: sortPairs_def)
qed

lemma extractKeywords_absent:
  "extractKeywords P None topN = Inr []" "extractKeywords P (Some []) topN = Inr []"
  by (simp_all add: extractKeywords_def)

text \<open>
  With the binding \<open>removeStopwords\<close> undefined, every text that is not empty ends in the
  \<open>TypeError\<close> of line 73.
\<close>

lemma extractKeywords_undefined_binding:
  assumes "removeStopwords P = None" and "t \<noteq> []"
  shows "extractKeywords P (Some t) topN = Inl ''removeStopwords is not a function''"
  using assms by (simp add: extractKeywords_def Let_def)

text \<open>
  What the rest of the function computes where the binding is a function \<open>remove\<close>, for a
  \<open>topN\<close> that is not negative and stems that name no property inherited from
  \<open>Object.prototype\<close>.
\<close>

lemma extractKeywords_closed_form:
  assumes "removeStopwords P = Some remove" "t \<noteq> []" "0 \<le> topN"
    and "\<forall>w \<in> set (filteredTokens remove (tokenize P (cleanText t))).
           inheritedText (stem P w) = None"
  shows "extractKeywords P (Some t) topN =
           Inr (take (nat topN)
             (sort_key (\<lambda>p. - int (countOf (snd p)))
                (map (\<lambda>k. (k, Count (count_list
                     (map (stem P) (filteredTokens remove (tokenize P (cleanText t)))) k)))
                   (entryOrder (map (stem P) (filteredTokens remove (tokenize P (cleanText t))))))))"
proof -
  define stems where "stems = map (stem P) (filteredTokens remove (tokenize P (cleanText t)))"
  have clean: "\<forall>w \<in> set stems. inheritedText w = None"
    using assms(4) by (simp add: stems_def)
  have cw: "countWords stems = map (\<lambda>k. (k, Count (count_list stems k))) (firstSeen stems)"
    using clean by (rule countWords_counts)
  have oe: "Object_entries (countWords stems)
      = map (\<lambda>k. (k, Count (count_list stems k))) (entryOrder stems)"
    unfolding cw entryOrder_def by (rule Object_entries_keyed)
  have "\<forall>p \<in> set (Object_entries (countWords stems)). \<exists>n. snd p = Count n"
    by (auto simp: oe)
  then have srt: "sortPairs P (Object_entries (countWords stems))
      = sort_key (\<lambda>p. - int (countOf (snd p))) (Object_entries (countWords stems))"
    by (rule sortPairs_counts)
  have "extractKeywords P (Some t) topN
      = Inr (slice0 (sortPairs P (Object_entries (countWords stems))) topN)"
    using assms(1,2) by (simp add: extractKeywords_def Let_def stems_def)
  also have "\<dots> = Inr (take (nat topN)
      (sort_key (\<lambda>p. - int (countOf (snd p)))
         (map (\<lambda>k. (k, Count (count_list stems k))) (entryOrder stems))))"
    using assms(3) unfolding srt by (simp add: oe slice0_def)
  finally show ?thesis unfolding stems_def .
qed

lemma prefix_filter_take: "prefix (filter Q (take n xs)) (filter Q xs)"
  by (intro filter_mono_prefix take_is_prefix)

text \<open>
  Under the same conditions the result has at most \<open>topN\<close> pairs; every term is the stem
  of a token that the stop word filter kept, that is not in the extra list, matches
  \<open>[a-z0-9]+\<close> and is longer than 2; its frequency is the number of occurrences of the
  stem; the pairs are sorted by frequency descending; and pairs of one frequency stand
  in the order of \<open>Object.entries\<close>, which is array-index stems ascending and then the
  other stems in the order of first encounter.
\<close>

lemma extractKeywords_ranked:
  assumes "removeStopwords P = Some remove" "t \<noteq> []" "0 \<le> topN"
    and "\<forall>w \<in> set (filteredTokens remove (tokenize P (cleanText t))).
           inheritedText (stem P w) = None"
  shows "\<exists>result. extractKeywords P (Some t) topN = Inr result \<and>
    length result \<le> nat topN \<and>
    (\<forall>p \<in> set result.
       \<exists>w \<in> set (remove (tokenize P (cleanText t))).
         w \<notin> set additionalStops \<and> alnumWord w \<and> 2 < length w \<and> fst p = stem P w) \<and>
    (\<forall>p \<in> set result.
       snd p = Count (count_list
         (map (stem P) (filteredTokens remove (tokenize P (cleanText t)))) (fst p))) \<and>
    (\<forall>i j. i < j \<longrightarrow> j < length result \<longrightarrow>
       countOf (snd (result ! j)) \<le> countOf (snd (result ! i))) \<and>
    (\<forall>n. prefix (map fst (filter (\<lambda>p. snd p = Count n) result))
           (filter (\<lambda>k. count_list
                (map (stem P) (filteredTokens remove (tokenize P (cleanText t)))) k = n)
              (entryOrder (map (stem P) (filteredTokens remove (tokenize P (cleanText t)))))))"
proof -
  define stems where "stems = map (stem P) (filteredTokens remove (tokenize P (cleanText t)))"
  define pair where "pair = (\<lambda>k. (k, Count (count_list stems k)))"
  define key where "key = (\<lambda>p :: string \<times> freq. - int (countOf (snd p)))"
  define ranked where "ranked = sort_key key (map pair (entryOrder stems))"
  define result where "result = take (nat topN) ranked"
  have res: "extractKeywords P (Some t) topN = Inr result"
    unfolding result_def ranked_def key_def pair_def stems_def
    using assms by (rule extractKeywords_closed_form)
  have set_ranked: "set ranked = pair ` set stems"
    by (simp add: ranked_def)
  have sub: "set result \<subseteq> pair ` set stems"
    unfolding result_def using set_take_subset [of "nat topN" ranked] set_ranked by simp
  have a: "length result \<le> nat topN" by (simp add: result_def)
  have b: "\<exists>w \<in> set (remove (tokenize P (cleanText t))).
         w \<notin> set additionalStops \<and> alnumWord w \<and> 2 < length w \<and> fst p = stem P w"
    if "p \<in> set result" for p
  proof -
    from that sub have "fst p \<in> set stems" by (auto simp: pair_def)
    then obtain w where "w \<in> set (filteredTokens remove (tokenize P (cleanText t)))"
      "fst p = stem P w"
      by (auto simp: stems_def)
    then show ?thesis by (auto simp: filteredTokens_def)
  qed
  have c: "snd p = Count (count_list stems (fst p))" if "p \<in> set result" for p
    using that sub by (auto simp: pair_def)
  have "sorted (map key ranked)" by (simp add: ranked_def)
  then have "sorted (take (nat topN) (map key ranked))" by (rule sorted_wrt_take)
  then have srt: "sorted (map key result)" by (simp add: result_def take_map)
  have d: "countOf (snd (result ! j)) \<le> countOf (snd (result ! i))"
    if "i < j" "j < length result" for i j
  proof -
    from srt that have "map key result ! i \<le> map key result ! j"
      by (intro sorted_nth_mono) simp_all
    with that show ?thesis by (simp add: key_def)
  qed
  have e: "prefix (map fst (filter (\<lambda>p. snd p = Count n) result))
      (filter (\<lambda>k. count_list stems k = n) (entryOrder stems))" for n
  proof -
    have "filter (\<lambda>p. snd p = Count n) ranked = filter (\<lambda>p. key p = - int n) ranked"
      by (intro filter_cong) (auto simp: set_ranked pair_def key_def countOf_def)
    also have "\<dots> = filter (\<lambda>p. key p = - int n) (map pair (entryOrder stems))"
      unfolding ranked_def by (rule sort_key_stable)
    also have "\<dots> = map pair (filter (\<lambda>k. count_list stems k = n) (entryOrder stems))"
      by (simp add: filter_map o_def key_def pair_def countOf_def)
    finally have "filter (\<lambda>p. snd p = Count n) ranked
        = map pair (filter (\<lambda>k. count_list stems k = n) (entryOrder stems))" .
    then have "prefix (filter (\<lambda>p. snd p = Count n) result)
        (map pair (filter (\<lambda>k. count_list stems k = n) (entryOrder stems)))"
      unfolding result_def
      using prefix_filter_take [of "\<lambda>p. snd p = Count n" "nat topN" ranked] by simp
    then have "prefix (map fst (filter (\<lambda>p. snd p = Count n) result))
        (map fst (map pair (filter (\<lambda>k. count_list stems k = n) (entryOrder stems))))"
      by (rule map_mono_prefix)
    then show ?thesis by (simp add: o_def pair_def)
  qed
  from res a b c d e show ?thesis
    unfolding stems_def by blast
qed

text \<open>
  C4 (the code departs from the claim): line 6 binds \<open>removeStopwords\<close> to the export
  \<open>remove\<close> of the module \<open>stopword\<close>, which the module does not have; with the binding
  undefined, \<open>extractKeywords\<close> throws the \<open>TypeError\<close> of line 73 on every text that is not
  empty, whatever \<open>topN\<close> is, and returns no pairs. Only the absent and the empty text
  give the empty sequence without an error.
\<close>

theorem extractKeywords_throws:
  assumes "removeStopwords P = None"
  shows "(t \<noteq> [] \<longrightarrow>
           extractKeywords P (Some t) topN = Inl ''removeStopwords is not a function'') \<and>
         extractKeywords P None topN = Inr [] \<and>
         extractKeywords P (Some []) topN = Inr []"
  using assms extractKeywords_undefined_binding [of P t topN] extractKeywords_absent [of P topN]
  by simp

theorem extractKeywords_throws_witness:
  "removeStopwords samplePlatform = None \<and>
   ''data breach 2024'' \<noteq> [] \<and>
   extractKeywords samplePlatform (Some ''data breach 2024'') 5
     = Inl ''removeStopwords is not a function'' \<and>
   extractKeywords samplePlatform None 5 = Inr [] \<and>
   extractKeywords samplePlatform (Some []) 5 = Inr []"
proof -
  have n: "removeStopwords samplePlatform = None"
    by (simp add: samplePlatform_def)
  from extractKeywords_throws [OF n, of "''data breach 2024''" 5] n show ?thesis
    by simp
qed

section \<open>The aggregator: results\<close>

lemma sortInsert_insort_key:
  "sortInsert newestFirst x ys = insort_key (\<lambda>a. - date_obj a) x ys"
  by (induction ys) (auto simp: newestFirst_def)

lemma arraySort_newestFirst: "arraySort newestFirst xs = sort_key (\<lambda>a. - date_obj a) xs"
proof -
  have "sortInsert newestFirst = insort_key (\<lambda>a. - date_obj a)"
    by (intro ext) (rule sortInsert_insort_key)
  then show ?thesis by (simp add: arraySort_def sort_key_def)
qed

lemma set_sortInsert [simp]: "set (sortInsert cmp x ys) = insert x (set ys)"
  by (induction ys) auto

lemma set_arraySort [simp]: "set (arraySort cmp xs) = set xs"
  by (induction xs) (simp_all add: arraySort_def)

lemma length_sortInsert [simp]: "length (sortInsert cmp x ys) = Suc (length ys)"
  by (induction ys) auto

lemma length_arraySort [simp]: "length (arraySort cmp xs) = length xs"
  by (induction xs) (simp_all add: arraySort_def)









text \<open>
  In a time zone whose offset from UTC is constant, seven days on the local calendar are
  7 times 86400000 ms.
\<close>

lemma sevenDaysBefore_fixed_offset:
  assumes "\<And>t. offsetAtUTC P t = c" "\<And>t. offsetAtLocal P t = c"
  shows "sevenDaysBefore P t = t - 7 * 86400000"
  using assms by (simp add: sevenDaysBefore_def localTime_def utcOfLocal_def)


text \<open>
  The keyword step: with the binding \<open>removeStopwords\<close> undefined, an entry that passes
  the date filter ends in the inner \<open>catch\<close> with the \<open>TypeError\<close> of \<open>extractKeywords\<close>. So
  no entry is pushed, the loop over the feeds collects nothing, and \<open>fetchGoogleNews\<close>
  returns the empty sequence.
\<close>

lemma processEntry_passed_filter:
  assumes "removeStopwords P = None"
    and "truthy (orElse (entry_pubDate e) (entry_isoDate e))"
    and "parseDate P (orEmpty (orElse (entry_pubDate e) (entry_isoDate e))) = Some t"
    and "\<not> t < oneWeekAgo"
  shows "processEntry P clk oneWeekAgo searchTerm e k
           = (Failed ''removeStopwords is not a function'', Suc k)"
  using assms
  by (simp add: processEntry_def Let_def extractKeywords_undefined_binding split: prod.splits)









text \<open>
  C3: the last step of \<open>fetchGoogleNews\<close> sorts the deduplicated sequence with the
  comparator \<open>newestFirst\<close>. In the sorted sequence an article with a later timestamp
  stands before every article with an earlier one; articles with one and the same
  timestamp stand in the order they have in the deduplicated sequence; and the sorted
  sequence is a rearrangement of the deduplicated one. This holds for every sequence
  \<open>uniqueArticles\<close>, and the result of \<open>fetchGoogleNews\<close> is the sorted sequence of what the
  deduplication leaves of the collected articles.
\<close>

theorem newest_first_stable:
  "(\<forall>i j. i < length (arraySort newestFirst uniqueArticles) \<longrightarrow>
          j < length (arraySort newestFirst uniqueArticles) \<longrightarrow>
          date_obj (arraySort newestFirst uniqueArticles ! j)
            < date_obj (arraySort newestFirst uniqueArticles ! i) \<longrightarrow> i < j) \<and>
   (\<forall>t. filter (\<lambda>a. date_obj a = t) (arraySort newestFirst uniqueArticles)
        = filter (\<lambda>a. date_obj a = t) uniqueArticles) \<and>
   mset (arraySort newestFirst uniqueArticles) = mset uniqueArticles \<and>
   fst (fetchGoogleNews P parseURL clk k0)
     = arraySort newestFirst (deduplicate (fst (collectArticles P parseURL clk k0)))"
proof -
  define out where "out = arraySort newestFirst uniqueArticles"
  have out: "out = sort_key (\<lambda>a. - date_obj a) uniqueArticles"
    by (simp add: out_def arraySort_newestFirst)
  have srt: "sorted (map (\<lambda>a. - date_obj a) out)"
    by (simp add: out)
  have order: "i < j" if "i < length out" "j < length out" "date_obj (out ! j) < date_obj (out ! i)"
    for i j
  proof (rule ccontr)
    assume "\<not> i < j"
    then have "j \<le> i" by simp
    with srt that(1) have "map (\<lambda>a. - date_obj a) out ! j \<le> map (\<lambda>a. - date_obj a) out ! i"
      by (intro sorted_nth_mono) simp_all
    with that show False by simp
  qed
  have stable: "filter (\<lambda>a. date_obj a = t) out = filter (\<lambda>a. date_obj a = t) uniqueArticles" for t
    using sort_key_stable [of "\<lambda>a. - date_obj a" "- t" uniqueArticles] by (simp add: out)
  have perm: "mset out = mset uniqueArticles" by (simp add: out)
  have res: "fst (fetchGoogleNews P parseURL clk k0)
     = arraySort newestFirst (deduplicate (fst (collectArticles P parseURL clk k0)))"
    by (simp add: fetchGoogleNews_def Let_def split: prod.splits)
  from order stable perm res show ?thesis unfolding out_def by blast
qed

theorem newest_first_stable_witness:
  "map title (arraySort newestFirst
      [headline ''Breach Hits Firm'' 1704585600000,
       headline ''Ransomware Hits Hospital'' 1704672000000,
       headline ''Leak At Bank'' 1704585600000])
     = [''Ransomware Hits Hospital'', ''Breach Hits Firm'', ''Leak At Bank''] \<and>
   map date_obj (arraySort newestFirst
      [headline ''Breach Hits Firm'' 1704585600000,
       headline ''Ransomware Hits Hospital'' 1704672000000,
       headline ''Leak At Bank'' 1704585600000])
     = [1704672000000, 1704585600000, 1704585600000] \<and>
   (0::nat) < length (arraySort newestFirst
      [headline ''Breach Hits Firm'' 1704585600000,
       headline ''Ransomware Hits Hospital'' 1704672000000,
       headline ''Leak At Bank'' 1704585600000]) \<and>
   (1::nat) < length (arraySort newestFirst
      [headline ''Breach Hits Firm'' 1704585600000,
       headline ''Ransomware Hits Hospital'' 1704672000000,
       headline ''Leak At Bank'' 1704585600000]) \<and>
   date_obj (arraySort newestFirst
      [headline ''Breach Hits Firm'' 1704585600000,
       headline ''Ransomware Hits Hospital'' 1704672000000,
       headline ''Leak At Bank'' 1704585600000] ! 1)
     < date_obj (arraySort newestFirst
      [headline ''Breach Hits Firm'' 1704585600000,
       headline ''Ransomware Hits Hospital'' 1704672000000,
       headline ''Leak At Bank'' 1704585600000] ! 0) \<and>
   (0::nat) < 1 \<and>
   filter (\<lambda>a. date_obj a = 1704585600000) (arraySort newestFirst
      [headline ''Breach Hits Firm'' 1704585600000,
       headline ''Ransomware Hits Hospital'' 1704672000000,
       headline ''Leak At Bank'' 1704585600000])
     = [headline ''Breach Hits Firm'' 1704585600000, headline ''Leak At Bank'' 1704585600000]"
proof -
  define uniq where "uniq =
      [headline ''Breach Hits Firm'' 1704585600000,
       headline ''Ransomware Hits Hospital'' 1704672000000,
       headline ''Leak At Bank'' 1704585600000]"
  have t: "map title (arraySort newestFirst uniq)
     = [''Ransomware Hits Hospital'', ''Breach Hits Firm'', ''Leak At Bank'']"
    by (simp add: uniq_def arraySort_def newestFirst_def headline_def)
  have d: "map date_obj (arraySort newestFirst uniq)
     = [1704672000000, 1704585600000, 1704585600000]"
    by (simp add: uniq_def arraySort_def newestFirst_def headline_def)
  from d have len: "length (arraySort newestFirst uniq) = 3"
    using length_map [of date_obj "arraySort newestFirst uniq"] by simp
  have n0: "date_obj (arraySort newestFirst uniq ! 0) = 1704672000000"
    using d len nth_map [of 0 "arraySort newestFirst uniq" date_obj] by simp
  have n1: "date_obj (arraySort newestFirst uniq ! 1) = 1704585600000"
    using d len nth_map [of 1 "arraySort newestFirst uniq" date_obj] by simp
  have u: "filter (\<lambda>a. date_obj a = 1704585600000) uniq
     = [headline ''Breach Hits Firm'' 1704585600000, headline ''Leak At Bank'' 1704585600000]"
    by (simp add: uniq_def headline_def)
  from newest_first_stable [of uniq samplePlatform mixedFeed sampleClock 0]
  have "filter (\<lambda>a. date_obj a = 1704585600000) (arraySort newestFirst uniq)
      = filter (\<lambda>a. date_obj a = 1704585600000) uniq"
    by blast
  with t d len n0 n1 u show ?thesis unfolding uniq_def by simp
qed

section \<open>Unparseable dates\<close>

text \<open>
  An entry with a date string that the parser cannot read produces the invalid date;
  the entry ends in the \<open>catch\<close> of the loop and no article is pushed.
\<close>

lemma processEntry_invalid_date:
  assumes "truthy (orElse (entry_pubDate e) (entry_isoDate e))"
    and "Date_parse P (orEmpty (orElse (entry_pubDate e) (entry_isoDate e))) = None"
  shows "processEntry P clk oneWeekAgo searchTerm e k = (Failed ''Invalid time value'', k)"
  using assms by (simp add: processEntry_def parseDate_def Let_def split: prod.splits)

text \<open>
  An entry without a date string takes the current time as its publish time and passes
  the date filter. With the binding \<open>removeStopwords\<close> undefined it then ends in the \<open>catch\<close>
  of the loop as every entry does; where the binding is a function, the entry is pushed,
  and its age reads \<open>0 hours ago\<close> when the next clock reading is less than an hour later
  and not earlier.
\<close>

lemma timeAgoText_fresh:
  assumes "0 \<le> d" "d < 3600000"
  shows "timeAgoText d = ''0 hours ago''"
proof -
  have "d div (1000 * 60 * 60 * 24) = 0" "d div (1000 * 60 * 60) = 0"
    using assms by (simp_all add: div_pos_pos_trivial)
  moreover have "showInt 0 = ''0''"
    by (simp add: showInt_def showNat.simps digitChar_def)
  ultimately show ?thesis
    by (simp add: timeAgoText_def Let_def)
qed

lemma processEntry_absent_date:
  assumes "\<not> truthy (orElse (entry_pubDate e) (entry_isoDate e))"
    and "oneWeekAgo \<le> clk k"
    and "removeStopwords P = None"
  shows "processEntry P clk oneWeekAgo searchTerm e k
           = (Failed ''removeStopwords is not a function'', Suc (Suc k))"
  using assms
  by (simp add: processEntry_def Let_def extractKeywords_undefined_binding split: prod.splits)

lemma processEntry_absent_date_pushed:
  assumes "\<not> truthy (orElse (entry_pubDate e) (entry_isoDate e))"
    and "oneWeekAgo \<le> clk k"
    and "0 \<le> clk (Suc k) - clk k" "clk (Suc k) - clk k < 3600000"
    and "removeStopwords P = Some remove"
  shows "\<exists>a. processEntry P clk oneWeekAgo searchTerm e k = (Pushed a, Suc (Suc k)) \<and>
             date_obj a = clk k \<and> time_ago a = ''0 hours ago''"
  using assms timeAgoText_fresh [of "clk (Suc k) - clk k"]
  by (simp add: processEntry_def extractKeywords_def Let_def split: prod.splits)

text \<open>
  C7 at a concrete entry: the publish date \<open>"not a date"\<close> is present and unparseable,
  \<open>parseDate\<close> returns the invalid date instead of the current time, the entry fails with
  the \<open>RangeError\<close> of \<open>toISOString\<close>, and the result of the refresh is empty.
\<close>

theorem unparseable_date_dropped:
  "truthy (entry_pubDate (sampleEntry ''Breach Hits Firm - Example News'' (Some ''not a date''))) \<and>
   parseDate samplePlatform ''not a date'' = None \<and>
   processEntry samplePlatform sampleClock (sampleClock 0 - 7 * 86400000) ''Data Breach''
       (sampleEntry ''Breach Hits Firm - Example News'' (Some ''not a date'')) 1
     = (Failed ''Invalid time value'', 1) \<and>
   fst (fetchGoogleNews samplePlatform badDateFeed sampleClock 0) = []"
  by code_simp

section \<open>The cache: results\<close>

lemma cacheValid_data: "cacheValid cache now \<Longrightarrow> \<exists>d. data cache = Some d"
  by (auto simp: cacheValid_def split: option.splits)

lemma apiBreachNews_hit:
  assumes "cacheValid cache (clk k)" "data cache = Some d"
  shows "apiBreachNews clk fetch cache k = (Ok200 d, cache, Suc k)"
  using assms by (simp add: apiBreachNews_def)

lemma apiBreachNews_miss_ok:
  assumes "\<not> cacheValid cache (clk k)" "fetch (Suc k) = (Inr arts, k1)"
  shows "apiBreachNews clk fetch cache k =
           (Ok200 (buildResult arts (clk k1) (clk (k1 + 1)) (clk (k1 + 2))),
            cache\<lparr>data := Some (buildResult arts (clk k1) (clk (k1 + 1)) (clk (k1 + 2))),
                  timestamp := Some (clk k)\<rparr>,
            k1 + 3)"
  using assms by (simp add: apiBreachNews_def Let_def)

lemma apiBreachNews_miss_error:
  assumes "\<not> cacheValid cache (clk k)" "fetch (Suc k) = (Inl msg, k1)"
  shows "apiBreachNews clk fetch cache k = (Error500 msg, cache, k1)"
  using assms by (simp add: apiBreachNews_def Let_def)

text \<open>
  C10: when the cache is not valid and the fetch throws, the response is the status 500
  with the message and the cache is as it was; and whenever a request leaves the cache
  changed, the cache was not valid and the fetch had returned articles.
\<close>

theorem fetch_error_keeps_cache:
  "(\<not> cacheValid cache (clk k) \<longrightarrow> fetch (Suc k) = (Inl msg, k1) \<longrightarrow>
      apiBreachNews clk fetch cache k = (Error500 msg, cache, k1)) \<and>
   (fst (snd (apiBreachNews clk fetch cache k)) \<noteq> cache \<longrightarrow>
      \<not> cacheValid cache (clk k) \<and> (\<exists>arts. fst (fetch (Suc k)) = Inr arts))"
proof (intro conjI impI)
  assume "\<not> cacheValid cache (clk k)" "fetch (Suc k) = (Inl msg, k1)"
  then show "apiBreachNews clk fetch cache k = (Error500 msg, cache, k1)"
    by (rule apiBreachNews_miss_error)
next
  assume ch: "fst (snd (apiBreachNews clk fetch cache k)) \<noteq> cache"
  show "\<not> cacheValid cache (clk k)"
  proof
    assume v: "cacheValid cache (clk k)"
    then obtain d where "data cache = Some d" using cacheValid_data by blast
    with v ch show False by (simp add: apiBreachNews_hit)
  qed
  then have miss: "\<not> cacheValid cache (clk k)" .
  obtain r k1 where f: "fetch (Suc k) = (r, k1)" by (cases "fetch (Suc k)")
  show "\<exists>arts. fst (fetch (Suc k)) = Inr arts"
  proof (cases r)
    case (Inl msg)
    with miss f ch show ?thesis by (simp add: apiBreachNews_miss_error)
  next
    case (Inr arts)
    with f show ?thesis by simp
  qed
qed

theorem fetch_error_keeps_cache_witness:
  "\<not> cacheValid staleCache (sampleClock 0) \<and>
   failingFetcher (Suc 0) = (Inl ''connect ETIMEDOUT'', Suc 0) \<and>
   apiBreachNews sampleClock failingFetcher staleCache 0
     = (Error500 ''connect ETIMEDOUT'', staleCache, Suc 0)"
proof -
  have m: "\<not> cacheValid staleCache (sampleClock 0)"
    by (simp add: cacheValid_def staleCache_def sampleClock_def)
  have f: "failingFetcher (Suc 0) = (Inl ''connect ETIMEDOUT'', Suc 0)"
    by (simp add: failingFetcher_def)
  from fetch_error_keeps_cache [of staleCache sampleClock 0 failingFetcher "''connect ETIMEDOUT''" "Suc 0"]
    m f
  show ?thesis by blast
qed

text \<open>
  The cache test on a cache that holds a payload stored at the time \<open>ts\<close>: the payload is
  served as long as the age \<open>now - ts\<close> is below \<open>expiresIn\<close>, and from the age \<open>expiresIn\<close> on
  the handler fetches again.
\<close>

lemma cacheValid_stored:
  assumes "data cache = Some d" "timestamp cache = Some ts"
  shows "cacheValid cache now \<longleftrightarrow> ts \<noteq> 0 \<and> now - ts < expiresIn cache"
  using assms by (simp add: cacheValid_def)

lemma apiBreachNews_fresh:
  assumes "data cache = Some d" "timestamp cache = Some ts" "ts \<noteq> 0"
    and "clk k - ts < expiresIn cache"
  shows "apiBreachNews clk fetch cache k = (Ok200 d, cache, Suc k)"
  using assms by (intro apiBreachNews_hit) (simp_all add: cacheValid_stored)

lemma apiBreachNews_stale:
  assumes "data cache = Some d" "timestamp cache = Some ts"
    and "expiresIn cache \<le> clk k - ts"
    and "fetch (Suc k) = (Inr arts, k1)"
  shows "apiBreachNews clk fetch cache k =
           (Ok200 (buildResult arts (clk k1) (clk (k1 + 1)) (clk (k1 + 2))),
            cache\<lparr>data := Some (buildResult arts (clk k1) (clk (k1 + 1)) (clk (k1 + 2))),
                  timestamp := Some (clk k)\<rparr>,
            k1 + 3)"
  using assms by (intro apiBreachNews_miss_ok) (simp_all add: cacheValid_stored)

text \<open>
  C5: the time to live is \<open>expiresIn\<close> = 3600000 ms, one hour. On a clock that does not run
  backwards, let a request at \<open>t0\<close> miss the cache and get a payload. Then every request
  at an age below one hour gets that payload and leaves the cache alone, whatever the
  fetch would give, so it does not fetch; and every request at an age of one hour or
  more fetches again and, when the fetch returns, gets and stores the payload built from
  the fetched articles. In a sequence of three requests, the second at an age below one
  hour (such as 30 minutes) and the third at an age of one hour or more (such as 61
  minutes), the second gets the payload of the first, with the same \<open>generated_at\<close>, and
  the third gets a payload with a different \<open>generated_at\<close>, which the cache then holds.
\<close>

theorem cache_ttl:
  assumes mono: "\<And>i j. i \<le> j \<Longrightarrow> clk i \<le> clk j"
    and ttl: "expiresIn cache0 = 3600000"
    and t0: "clk k0 = t0" "t0 \<noteq> 0"
    and miss: "\<not> cacheValid cache0 t0"
    and r1: "apiBreachNews clk fetch1 cache0 k0 = (Ok200 p1, cache1, k1)"
    and t2: "k1 \<le> k2" "clk k2 - t0 < 3600000"
    and r2: "apiBreachNews clk fetch2 cache1 k2 = (resp2, cache2, k2')"
    and t3: "k2 < k3" "3600000 \<le> clk k3 - t0"
    and f3: "fetch3 (Suc k3) = (Inr arts3, k3')" "Suc k3 \<le> k3'"
    and r3: "apiBreachNews clk fetch3 cache2 k3 = (resp3, cache3, k3'')"
  shows "(\<forall>k f. clk k - t0 < 3600000 \<longrightarrow>
            apiBreachNews clk f cache1 k = (Ok200 p1, cache1, Suc k)) \<and>
         (\<forall>k f arts k'. 3600000 \<le> clk k - t0 \<longrightarrow> f (Suc k) = (Inr arts, k') \<longrightarrow>
            apiBreachNews clk f cache1 k =
              (Ok200 (buildResult arts (clk k') (clk (k' + 1)) (clk (k' + 2))),
               cache1\<lparr>data := Some (buildResult arts (clk k') (clk (k' + 1)) (clk (k' + 2))),
                      timestamp := Some (clk k)\<rparr>,
               k' + 3)) \<and>
         resp2 = Ok200 p1 \<and> cache2 = cache1 \<and>
         (\<exists>p3. resp3 = Ok200 p3 \<and> result_articles p3 = arts3 \<and>
               generated_at (meta p3) \<noteq> generated_at (meta p1) \<and>
               data cache3 = Some p3 \<and> timestamp cache3 = Some (clk k3))"
proof -
  obtain r j1 where f1: "fetch1 (Suc k0) = (r, j1)" by (cases "fetch1 (Suc k0)")
  from miss t0 have miss0: "\<not> cacheValid cache0 (clk k0)" by simp
  obtain arts1 where r: "r = Inr arts1"
    using r1 miss0 f1 by (cases r) (simp_all add: apiBreachNews_miss_error)
  have first: "apiBreachNews clk fetch1 cache0 k0 =
      (Ok200 (buildResult arts1 (clk j1) (clk (j1 + 1)) (clk (j1 + 2))),
       cache0\<lparr>data := Some (buildResult arts1 (clk j1) (clk (j1 + 1)) (clk (j1 + 2))),
              timestamp := Some (clk k0)\<rparr>,
       j1 + 3)"
    using miss0 f1 r by (intro apiBreachNews_miss_ok) simp_all
  with r1 have p1: "p1 = buildResult arts1 (clk j1) (clk (j1 + 1)) (clk (j1 + 2))"
    and c1: "cache1 = cache0\<lparr>data := Some p1, timestamp := Some t0\<rparr>"
    and k1: "k1 = j1 + 3"
    using t0 by auto
  have d1: "data cache1 = Some p1" and ts1: "timestamp cache1 = Some t0"
    and e1: "expiresIn cache1 = 3600000"
    using ttl by (simp_all add: c1)
  have hit: "apiBreachNews clk f cache1 k = (Ok200 p1, cache1, Suc k)"
    if "clk k - t0 < 3600000" for k f
    using d1 ts1 t0(2) that e1 by (intro apiBreachNews_fresh) simp_all
  have stale: "apiBreachNews clk f cache1 k =
      (Ok200 (buildResult arts (clk k') (clk (k' + 1)) (clk (k' + 2))),
       cache1\<lparr>data := Some (buildResult arts (clk k') (clk (k' + 1)) (clk (k' + 2))),
              timestamp := Some (clk k)\<rparr>,
       k' + 3)"
    if "3600000 \<le> clk k - t0" "f (Suc k) = (Inr arts, k')" for k f arts k'
    using d1 ts1 that e1 by (intro apiBreachNews_stale) simp_all
  from hit [OF t2(2)] r2 have s2: "resp2 = Ok200 p1" "cache2 = cache1" by simp_all
  define p3 where "p3 = buildResult arts3 (clk k3') (clk (k3' + 1)) (clk (k3' + 2))"
  have third: "apiBreachNews clk fetch3 cache2 k3 =
      (Ok200 p3, cache1\<lparr>data := Some p3, timestamp := Some (clk k3)\<rparr>, k3' + 3)"
    unfolding p3_def s2 using t3(2) f3(1) by (rule stale)
  with r3 have s3: "resp3 = Ok200 p3" "cache3 = cache1\<lparr>data := Some p3, timestamp := Some (clk k3)\<rparr>"
    by simp_all
  have "clk j1 \<le> clk k2" using mono [of j1 k2] k1 t2 by simp
  moreover have "clk k3 \<le> clk k3'" using mono [of k3 k3'] f3(2) by simp
  ultimately have "clk j1 < clk k3'" using t2 t3 by simp
  then have "toISOString (clk k3') \<noteq> toISOString (clk j1)"
    using toISOString_inj [of "clk k3'" "clk j1"] by auto
  then have diff: "generated_at (meta p3) \<noteq> generated_at (meta p1)"
    by (simp add: p3_def p1 buildResult_def)
  have arts: "result_articles p3 = arts3" by (simp add: p3_def buildResult_def)
  have last: "\<exists>p3. resp3 = Ok200 p3 \<and> result_articles p3 = arts3 \<and>
               generated_at (meta p3) \<noteq> generated_at (meta p1) \<and>
               data cache3 = Some p3 \<and> timestamp cache3 = Some (clk k3)"
    using s3 diff arts by simp
  from hit stale s2 last show ?thesis by blast
qed

lemma requestClock_mono: "i \<le> j \<Longrightarrow> requestClock i \<le> requestClock j"
  by (auto simp: requestClock_def)

theorem cache_ttl_witness:
  "requestClock 0 \<noteq> 0 \<and>
   \<not> cacheValid initialCache (requestClock 0) \<and>
   expiresIn initialCache = 3600000 \<and>
   requestClock 10 = requestClock 0 + 30 * 60 * 1000 \<and>
   requestClock 10 - requestClock 0 < 3600000 \<and>
   requestClock 20 = requestClock 0 + 61 * 60 * 1000 \<and>
   3600000 \<le> requestClock 20 - requestClock 0 \<and>
   snd (snd firstRequest) = 6 \<and>
   fst secondRequest = fst firstRequest \<and>
   fst (snd secondRequest) = fst (snd firstRequest) \<and>
   fst thirdRequest \<noteq> fst firstRequest"
proof -
  have c0: "requestClock 0 \<noteq> 0" by (simp add: requestClock_def)
  have m0: "\<not> cacheValid initialCache (requestClock 0)"
    by (simp add: cacheValid_def initialCache_def)
  have c10: "requestClock 10 = requestClock 0 + 30 * 60 * 1000"
    and c20: "requestClock 20 = requestClock 0 + 61 * 60 * 1000"
    by (simp_all add: requestClock_def)
  have a10: "requestClock 10 - requestClock 0 < 3600000"
    and a20: "3600000 \<le> requestClock 20 - requestClock 0"
    by (simp_all add: requestClock_def)
  have n1: "snd (fetchGoogleNews samplePlatform todayFeed requestClock (Suc 0)) = 3"
    by code_simp
  have n3: "snd (fetchGoogleNews samplePlatform todayFeed requestClock (Suc 20)) = 23"
    by code_simp
  define A1 where "A1 = fst (fetchGoogleNews samplePlatform todayFeed requestClock (Suc 0))"
  define A3 where "A3 = fst (fetchGoogleNews samplePlatform todayFeed requestClock (Suc 20))"
  have f1: "sampleFetcher (Suc 0) = (Inr A1, 3)"
    using n1 by (auto simp: sampleFetcher_def googleNewsFetcher_def A1_def split: prod.splits)
  have f3: "sampleFetcher (Suc 20) = (Inr A3, 23)"
    using n3 by (auto simp: sampleFetcher_def googleNewsFetcher_def A3_def split: prod.splits)
  define p1 where "p1 = buildResult A1 (requestClock 3) (requestClock (3 + 1)) (requestClock (3 + 2))"
  define cache1 where
    "cache1 = initialCache\<lparr>data := Some p1, timestamp := Some (requestClock 0)\<rparr>"
  have r1: "apiBreachNews requestClock sampleFetcher initialCache 0 = (Ok200 p1, cache1, 6)"
    using apiBreachNews_miss_ok [of initialCache requestClock 0 sampleFetcher A1 3, OF m0 f1]
    by (simp add: p1_def cache1_def)
  obtain resp2 cache2 k2' where
    r2: "apiBreachNews requestClock sampleFetcher cache1 10 = (resp2, cache2, k2')"
    by (cases "apiBreachNews requestClock sampleFetcher cache1 10") auto
  obtain resp3 cache3 k3'' where
    r3: "apiBreachNews requestClock sampleFetcher cache2 20 = (resp3, cache3, k3'')"
    by (cases "apiBreachNews requestClock sampleFetcher cache2 20") auto
  have ttl: "expiresIn initialCache = 3600000" by (simp add: initialCache_def)
  from cache_ttl [of requestClock initialCache 0 "requestClock 0" sampleFetcher p1 cache1 6 10
      sampleFetcher resp2 cache2 k2' 20 sampleFetcher A3 23 resp3 cache3 k3'',
      OF requestClock_mono ttl refl c0 m0 r1 _ a10 r2 _ a20 f3 _ r3]
  have concl: "resp2 = Ok200 p1 \<and> cache2 = cache1 \<and>
      (\<exists>p3. resp3 = Ok200 p3 \<and> generated_at (meta p3) \<noteq> generated_at (meta p1))"
    by auto
  have "fst firstRequest = Ok200 p1" "fst (snd firstRequest) = cache1" "snd (snd firstRequest) = 6"
    by (simp_all add: firstRequest_def r1)
  moreover have s2: "fst secondRequest = resp2" "fst (snd secondRequest) = cache2"
    by (simp_all add: secondRequest_def firstRequest_def r1 r2)
  moreover have "fst thirdRequest = resp3"
    by (simp add: thirdRequest_def s2 r3)
  ultimately show ?thesis using concl c0 m0 ttl c10 c20 a10 a20 by auto
qed

section \<open>The report renderer: results\<close>

lemma generateHtmlReport_no_articles:
  "fst (generateHtmlReport P clk None k) = noArticlesDocument"
  "fst (generateHtmlReport P clk (Some []) k) = noArticlesDocument"
  by (simp_all add: generateHtmlReport_def)

lemma generateHtmlReport_readings:
  assumes "clk k = clk' k'" "clk (k + 1) = clk' (k' + 1)" "clk (k + 2) = clk' (k' + 2)"
  shows "fst (generateHtmlReport P clk articles k) = fst (generateHtmlReport P clk' articles k')"
  using assms by (simp add: generateHtmlReport_def Let_def split: option.splits)

lemma generateHtmlReport_document:
  assumes "arts \<noteq> []"
  shows "fst (generateHtmlReport P clk (Some arts) k)
    = reportHead (formatDate P (sevenDaysBefore P (clk (k + 1))) @ '' - '' @ formatFullDate P (clk k))
        (length arts)
      @ concat (map reportRow arts) @ reportFoot (generatedOn (clk (k + 2)))"
  using assms by (simp add: generateHtmlReport_def Let_def)

lemma reportHead_not_fixed: "reportHead dateRange n @ rest \<noteq> noArticlesDocument"
  by (simp add: reportHead_def noArticlesDocument_def)

lemma reportFoot_split:
  "reportFoot g = take 151 (reportFoot []) @ g @ drop 151 (reportFoot [])"
  by (simp add: reportFoot_def)

lemma length_replaceFirst_char: "length (replaceFirst [c] [d] s) = length s"
  by (auto simp: replaceFirst_def split: option.splits dest: cutAt_Some_decomp)

lemma length_padStart_ge: "k \<le> length (padStart k s)"
  by (simp add: length_padStart)

lemma length_toISOString_ge: "19 \<le> length (toISOString t)"
proof -
  have y: "4 \<le> length (yearText y)" for y
    using length_padStart_ge [of 4 "showNat y"] length_padStart_ge [of 6 "showNat \<bar>y\<bar>"]
    by (simp add: yearText_def)
  have p: "2 \<le> length (pad2 n)" for n
    unfolding pad2_def by (rule length_padStart_ge)
  have q: "12 \<le> length (clockText ms)" for ms
    using p [of "ms div 3600000"] p [of "ms div 60000 mod 60"] p [of "ms div 1000 mod 60"]
      length_padStart_ge [of 3 "showNat (ms mod 1000)"]
    by (simp add: clockText_def)
  obtain y m d where c: "civilFromDays (t div 86400000) = (y, m, d)"
    by (cases "civilFromDays (t div 86400000)") auto
  show ?thesis
    using y [of y] p [of m] p [of d] q [of "t mod 86400000"] by (simp add: toISOString_def c)
qed

lemma length_generatedOn: "length (generatedOn t) = 19"
  using length_toISOString_ge [of t] by (simp add: generatedOn_def length_replaceFirst_char)


lemma generateHtmlReport_stamp:
  assumes "arts \<noteq> []" "arts' \<noteq> []"
    and "fst (generateHtmlReport P clk (Some arts) k) = fst (generateHtmlReport P' clk' (Some arts') k')"
  shows "generatedOn (clk (k + 2)) = generatedOn (clk' (k' + 2))"
proof -
  define B where "B = drop 151 (reportFoot [])"
  define A where "A = take 151 (reportFoot [])"
  have foot: "reportFoot g = A @ g @ B" for g
    unfolding A_def B_def by (rule reportFoot_split)
  from assms have "(reportHead (formatDate P (sevenDaysBefore P (clk (k + 1))) @ '' - '' @ formatFullDate P (clk k))
        (length arts) @ concat (map reportRow arts) @ A) @ generatedOn (clk (k + 2))
     = (reportHead (formatDate P' (sevenDaysBefore P' (clk' (k' + 1))) @ '' - '' @ formatFullDate P' (clk' k'))
        (length arts') @ concat (map reportRow arts') @ A) @ generatedOn (clk' (k' + 2))"
    by (simp add: generateHtmlReport_document foot)
  then show ?thesis
    using length_generatedOn [of "clk (k + 2)"] length_generatedOn [of "clk' (k' + 2)"]
    by (metis append_eq_append_conv)
qed

lemma reportRow_included:
  assumes "a \<in> set arts"
  shows "str_includes (fst (generateHtmlReport P clk (Some arts) k)) (reportRow a)"
proof -
  from assms obtain xs ys where "arts = xs @ a # ys" by (auto simp: in_set_conv_decomp)
  then have "concat (map reportRow arts) = concat (map reportRow xs) @ reportRow a @ concat (map reportRow ys)"
    by simp
  moreover from assms have "arts \<noteq> []" by auto
  ultimately show ?thesis
    unfolding str_includes_sublist sublist_def
    by (simp add: generateHtmlReport_document) (metis append.assoc)
qed


lemma stamp_0: "generatedOn 1704672000002 = ''2024-01-08 00:00:00''"
  by code_simp

lemma stamp_5: "generatedOn 1704672005002 = ''2024-01-08 00:00:05''"
  by code_simp

lemma range_text:
  "formatDate samplePlatform 1704067200001 = ''Jan 1''"
  "formatDate samplePlatform 1704067205001 = ''Jan 1''"
  "formatFullDate samplePlatform 1704672000000 = ''Jan 8, 2024''"
  "formatFullDate samplePlatform 1704672005000 = ''Jan 8, 2024''"
  by code_simp+

text \<open>
  C8 as stated fails: with articles the document carries the date range and the time of
  generation. The same article list rendered at the clock readings 0 and 5000, five
  seconds apart, gives two documents that differ in the line \<open>generated on\<close>.
\<close>

theorem generateHtmlReport_pure_counterexample:
  "fst (generateHtmlReport samplePlatform sampleClock
          (Some [headline ''Breach Hits Firm'' 1704672000000]) 0)
     \<noteq> fst (generateHtmlReport samplePlatform sampleClock
          (Some [headline ''Breach Hits Firm'' 1704672000000]) 5000)"
proof -
  have v0: "sampleClock 0 = 1704672000000"
    "sevenDaysBefore samplePlatform (sampleClock (0 + 1)) = 1704067200001"
    "sampleClock (0 + 2) = 1704672000002"
    by (simp_all add: sampleClock_def sevenDaysBefore_def localTime_def utcOfLocal_def
        samplePlatform_def)
  have v5: "sampleClock 5000 = 1704672005000"
    "sevenDaysBefore samplePlatform (sampleClock (5000 + 1)) = 1704067205001"
    "sampleClock (5000 + 2) = 1704672005002"
    by (simp_all add: sampleClock_def sevenDaysBefore_def localTime_def utcOfLocal_def
        samplePlatform_def)
  have g0: "fst (generateHtmlReport samplePlatform sampleClock
          (Some [headline ''Breach Hits Firm'' 1704672000000]) 0)
      = reportHead ''Jan 1 - Jan 8, 2024'' 1
        @ reportRow (headline ''Breach Hits Firm'' 1704672000000)
        @ reportFoot ''2024-01-08 00:00:00''"
    unfolding generateHtmlReport_def Let_def v0 range_text stamp_0 by simp
  have g5: "fst (generateHtmlReport samplePlatform sampleClock
          (Some [headline ''Breach Hits Firm'' 1704672000000]) 5000)
      = reportHead ''Jan 1 - Jan 8, 2024'' 1
        @ reportRow (headline ''Breach Hits Firm'' 1704672000000)
        @ reportFoot ''2024-01-08 00:00:05''"
    unfolding generateHtmlReport_def Let_def v5 range_text stamp_5 by simp
  have "reportFoot ''2024-01-08 00:00:00'' \<noteq> reportFoot ''2024-01-08 00:00:05''"
    by (simp add: reportFoot_def)
  then show ?thesis
    unfolding g0 g5 by simp
qed

text \<open>
  C8 (amended): the document is a function of the article list, of three clock readings
  and of the time zone of the process. For an absent or empty list it is the fixed
  document, whatever the clock and the zone. For a list that is not empty it is never the
  fixed document and it holds the table row of every article of the list; two
  invocations on the same list in the same zone give the identical document when their
  three clock readings agree; and two invocations that give the identical document, in
  whatever zones, agree in the text of the line \<open>generated on\<close>, the third clock reading
  to the second, so that invocations whose texts of that line differ give different
  documents.
\<close>

theorem generateHtmlReport_clock:
  "fst (generateHtmlReport P clk None k) = noArticlesDocument \<and>
   fst (generateHtmlReport P clk (Some []) k) = noArticlesDocument \<and>
   (arts \<noteq> [] \<longrightarrow>
      fst (generateHtmlReport P clk (Some arts) k) \<noteq> noArticlesDocument \<and>
      (\<forall>a \<in> set arts.
         str_includes (fst (generateHtmlReport P clk (Some arts) k)) (reportRow a)) \<and>
      (clk k = clk' k' \<and> clk (k + 1) = clk' (k' + 1) \<and> clk (k + 2) = clk' (k' + 2) \<longrightarrow>
         fst (generateHtmlReport P clk (Some arts) k)
           = fst (generateHtmlReport P clk' (Some arts) k')) \<and>
      (fst (generateHtmlReport P clk (Some arts) k)
           = fst (generateHtmlReport P' clk' (Some arts) k') \<longrightarrow>
         generatedOn (clk (k + 2)) = generatedOn (clk' (k' + 2))))"
proof (intro conjI impI ballI)
  show "fst (generateHtmlReport P clk None k) = noArticlesDocument"
    "fst (generateHtmlReport P clk (Some []) k) = noArticlesDocument"
    by (rule generateHtmlReport_no_articles)+
next
  assume "arts \<noteq> []"
  then show "fst (generateHtmlReport P clk (Some arts) k) \<noteq> noArticlesDocument"
    by (simp add: generateHtmlReport_document reportHead_not_fixed)
next
  fix a assume "a \<in> set arts"
  then show "str_includes (fst (generateHtmlReport P clk (Some arts) k)) (reportRow a)"
    by (rule reportRow_included)
next
  assume "clk k = clk' k' \<and> clk (k + 1) = clk' (k' + 1) \<and> clk (k + 2) = clk' (k' + 2)"
  then show "fst (generateHtmlReport P clk (Some arts) k)
           = fst (generateHtmlReport P clk' (Some arts) k')"
    by (intro generateHtmlReport_readings) simp_all
next
  assume "arts \<noteq> []"
    "fst (generateHtmlReport P clk (Some arts) k) = fst (generateHtmlReport P' clk' (Some arts) k')"
  then show "generatedOn (clk (k + 2)) = generatedOn (clk' (k' + 2))"
    using generateHtmlReport_stamp [of arts arts P clk k P' clk' k'] by simp
qed

theorem generateHtmlReport_clock_witness:
  "[headline ''Breach Hits Firm'' 1704672000000] \<noteq> [] \<and>
   sampleClock 0 = requestClock 0 \<and>
   sampleClock (0 + 1) = requestClock (0 + 1) \<and>
   sampleClock (0 + 2) = requestClock (0 + 2) \<and>
   fst (generateHtmlReport samplePlatform sampleClock
          (Some [headline ''Breach Hits Firm'' 1704672000000]) 0)
     = fst (generateHtmlReport samplePlatform requestClock
          (Some [headline ''Breach Hits Firm'' 1704672000000]) 0) \<and>
   fst (generateHtmlReport samplePlatform sampleClock
          (Some [headline ''Breach Hits Firm'' 1704672000000]) 0) \<noteq> noArticlesDocument \<and>
   str_includes
     (fst (generateHtmlReport samplePlatform sampleClock
          (Some [headline ''Breach Hits Firm'' 1704672000000]) 0))
     (reportRow (headline ''Breach Hits Firm'' 1704672000000)) \<and>
   generatedOn (sampleClock (0 + 2)) = generatedOn (requestClock (0 + 2)) \<and>
   generatedOn (sampleClock (0 + 2)) = ''2024-01-08 00:00:00'' \<and>
   fst (generateHtmlReport samplePlatform sampleClock None 0) = noArticlesDocument"
proof -
  have r: "sampleClock 0 = requestClock 0" "sampleClock (0 + 1) = requestClock (0 + 1)"
    "sampleClock (0 + 2) = requestClock (0 + 2)"
    by (simp_all add: sampleClock_def requestClock_def)
  have g: "generatedOn (sampleClock (0 + 2)) = ''2024-01-08 00:00:00''"
    using stamp_0 by (simp add: sampleClock_def)
  have ne: "[headline ''Breach Hits Firm'' 1704672000000] \<noteq> []" by simp
  note T = generateHtmlReport_clock [of samplePlatform sampleClock 0
      "[headline ''Breach Hits Firm'' 1704672000000]" requestClock 0 samplePlatform]
  from T r ne have same: "fst (generateHtmlReport samplePlatform sampleClock
          (Some [headline ''Breach Hits Firm'' 1704672000000]) 0)
     = fst (generateHtmlReport samplePlatform requestClock
          (Some [headline ''Breach Hits Firm'' 1704672000000]) 0)"
    by blast
  from T ne have other: "fst (generateHtmlReport samplePlatform sampleClock
          (Some [headline ''Breach Hits Firm'' 1704672000000]) 0) \<noteq> noArticlesDocument"
    by blast
  from T ne have row: "str_includes
     (fst (generateHtmlReport samplePlatform sampleClock
          (Some [headline ''Breach Hits Firm'' 1704672000000]) 0))
     (reportRow (headline ''Breach Hits Firm'' 1704672000000))"
    by simp
  from T ne same have stamp: "generatedOn (sampleClock (0 + 2)) = generatedOn (requestClock (0 + 2))"
    by blast
  from T have fixed: "fst (generateHtmlReport samplePlatform sampleClock None 0) = noArticlesDocument"
    by blast
  show ?thesis
    using ne r same other row stamp g fixed by (intro conjI)
qed

end
